theory Spec2Isabelle
  imports Main "HOL-Library.Sublist"
begin

section \<open>JavaScript values\<close>

text \<open>
  The values a record can hold (\<open>Record<string, unknown>\<close>). An object is the list of its
  own enumerable properties in enumeration order; a well-formed object has distinct keys.
  Strings are lists of code units below 256. Numbers are the integers that a double holds
  exactly (magnitude at most \<open>2^53\<close>): no function modelled here does arithmetic on a
  record's numbers, they are only passed on or printed.
  A property read \<open>r[k]\<close> gives the value of the own property \<open>k\<close>, and \<open>undefined\<close>
  when there is none. This is what the code does except at a key the object does not own
  that names a property inherited from \<open>Object.prototype\<close>, where the code reads the
  inherited property; no theorem below reads a record at such a key. The program's
  lookup tables, which are read at names the caller chooses, are modelled with the
  properties every object inherits (see \<open>readTable\<close>).
\<close>

datatype jsval =
    JUndefined
  | JNull
  | JBool bool
  | JNum int
  | JStr string
  | JArr "jsval list"
  | JObj "(string \<times> jsval) list"

type_synonym jsrecord = "(string \<times> jsval) list"

fun typeof :: "jsval \<Rightarrow> string" where
  "typeof JUndefined = ''undefined''"
| "typeof JNull = ''object''"
| "typeof (JBool b) = ''boolean''"
| "typeof (JNum n) = ''number''"
| "typeof (JStr s) = ''string''"
| "typeof (JArr xs) = ''object''"
| "typeof (JObj kvs) = ''object''"

fun isArray :: "jsval \<Rightarrow> bool" where
  "isArray (JArr xs) = True"
| "isArray v = False"

definition Object_keys :: "jsrecord \<Rightarrow> string list" where
  "Object_keys r = map fst r"

definition Object_values :: "jsrecord \<Rightarrow> jsval list" where
  "Object_values r = map snd r"

text \<open>\<open>r[k]\<close>: the value of the own property \<open>k\<close>, \<open>undefined\<close> when there is none.\<close>

definition getProp :: "jsrecord \<Rightarrow> string \<Rightarrow> jsval" where
  "getProp r k = (case map_of r k of Some v \<Rightarrow> v | None \<Rightarrow> JUndefined)"

fun wf_jsval :: "jsval \<Rightarrow> bool" and wf_props :: "jsrecord \<Rightarrow> bool" where
  "wf_jsval (JObj kvs) = (distinct (map fst kvs) \<and> wf_props kvs)"
| "wf_jsval (JArr []) = True"
| "wf_jsval (JArr (x # xs)) = (wf_jsval x \<and> wf_jsval (JArr xs))"
| "wf_jsval JUndefined = True"
| "wf_jsval JNull = True"
| "wf_jsval (JBool b) = True"
| "wf_jsval (JNum n) = True"
| "wf_jsval (JStr s) = True"
| "wf_props [] = True"
| "wf_props ((k, v) # kvs) = (wf_jsval v \<and> wf_props kvs)"

section \<open>Extraction results\<close>

datatype ExtractionOutputFormat = Json | Markdown | Summary | KeyValue | Csv

text \<open>
  Modelled from the spec: the declarations of \<open>ExtractionResult\<close> and of its metadata are
  not among the sources (only their uses are). The fields are those of the spec's data
  model; \<open>source\<close> is one of the five tags the extraction tools write.
\<close>

datatype ExtractionSource = SrcPdf | SrcEmail | SrcDataverse | SrcJson | SrcCode

fun sourceText :: "ExtractionSource \<Rightarrow> string" where
  "sourceText SrcPdf = ''pdf''"
| "sourceText SrcEmail = ''email''"
| "sourceText SrcDataverse = ''dataverse''"
| "sourceText SrcJson = ''json''"
| "sourceText SrcCode = ''code''"

record ExtractionMetadata =
  source :: ExtractionSource
  extractedAt :: string
  outputFormat :: ExtractionOutputFormat
  recordCount :: nat
  warnings :: "string list option"
  targetTool :: "string option"

record ExtractionResult =
  metadata :: ExtractionMetadata
  records :: "jsrecord list"
  fieldHints :: "(string \<times> string) list option"

section \<open>Output formatter: format resolution\<close>

text \<open>
  The tables of the program are object literals read with \<open>TABLE[name]\<close>, where the name
  comes from the caller. Such a read finds the table's own entry; for a name the table
  does not own it finds the property of that name that every object inherits from
  \<open>Object.prototype\<close> (a function, or the prototype itself for \<open>__proto__\<close>), all of them
  truthy; for any other name it gives \<open>undefined\<close>.
\<close>

definition objectPrototypeNames :: "string list" where
  "objectPrototypeNames =
     [''constructor'', ''__defineGetter__'', ''__defineSetter__'', ''hasOwnProperty'',
      ''__lookupGetter__'', ''__lookupSetter__'', ''isPrototypeOf'', ''propertyIsEnumerable'',
      ''toString'', ''valueOf'', ''__proto__'', ''toLocaleString'']"

datatype 'a tableRead = Own 'a | Inherited string | NoProperty

definition readTable :: "(string \<Rightarrow> 'a option) \<Rightarrow> string \<Rightarrow> 'a tableRead" where
  "readTable own name =
     (case own name of
        Some v \<Rightarrow> Own v
      | None \<Rightarrow> if name \<in> set objectPrototypeNames then Inherited name else NoProperty)"

text \<open>The own entries of \<open>TARGET_TOOL_FORMAT_MAP\<close>.\<close>

definition TARGET_TOOL_FORMAT_MAP :: "string \<Rightarrow> ExtractionOutputFormat option" where
  "TARGET_TOOL_FORMAT_MAP = map_of
    [(''add_customer'', Json),
     (''update_customer_status'', Json),
     (''add_environment'', Json),
     (''add_checklist_item'', Json),
     (''update_checklist_item'', Json),
     (''search_best_practices'', Markdown),
     (''get_implementation_checklist'', Markdown),
     (''get_customer'', KeyValue),
     (''list_customers'', Csv),
     (''get_environments'', Csv),
     (''validate_environment_readiness'', Summary)]"

text \<open>
  \<open>getMaxDepth(obj, depth = 0)\<close>; the loop over \<open>Object.values(obj)\<close> carries the running
  maximum.
\<close>

fun getMaxDepth :: "jsval \<Rightarrow> nat \<Rightarrow> nat"
  and getMaxDepth_loop :: "jsrecord \<Rightarrow> nat \<Rightarrow> nat \<Rightarrow> nat" where
  "getMaxDepth (JObj kvs) depth = getMaxDepth_loop kvs depth depth"
| "getMaxDepth JUndefined depth = depth"
| "getMaxDepth JNull depth = depth"
| "getMaxDepth (JBool b) depth = depth"
| "getMaxDepth (JNum n) depth = depth"
| "getMaxDepth (JStr s) depth = depth"
| "getMaxDepth (JArr xs) depth = depth"
| "getMaxDepth_loop [] depth mx = mx"
| "getMaxDepth_loop ((k, v) # kvs) depth mx =
     getMaxDepth_loop kvs depth (max mx (getMaxDepth v (depth + 1)))"

definition isFlatValue :: "jsval \<Rightarrow> bool" where
  "isFlatValue v = (typeof v \<noteq> ''object'' \<or> v = JNull \<or> isArray v)"

fun isLongText :: "jsval \<Rightarrow> bool" where
  "isLongText (JStr s) = (length s > 200)"
| "isLongText v = False"

definition detectFormatFromData :: "jsrecord list \<Rightarrow> ExtractionOutputFormat" where
  "detectFormatFromData rs =
     (if length rs = 0 then Json
      else if length rs = 1 then
        (let depth = getMaxDepth (JObj (rs ! 0)) 0
         in if depth > 2 then Json else KeyValue)
      else
        (let allFlat = list_all (\<lambda>r. list_all isFlatValue (Object_values r)) rs
         in if allFlat \<and> length rs > 3 then Csv
            else
              (let hasLongText = list_ex (\<lambda>r. list_ex isLongText (Object_values r)) rs
               in if hasLongText then Markdown else Json)))"

text \<open>
  What \<open>resolveFormat\<close> returns: one of the five formats, or, although the function is
  declared to return a format, the property of \<open>Object.prototype\<close> of the given name when
  the read of the table found that.
\<close>

datatype resolvedFormat = Format ExtractionOutputFormat | PrototypeProperty string

text \<open>
  \<open>resolveFormat\<close>: an absent argument is \<open>None\<close>. The empty tool name is falsy and is
  treated as absent, as the source's \<open>targetTool && ...\<close> does.
\<close>

definition resolveFormat ::
  "ExtractionResult \<Rightarrow> ExtractionOutputFormat option \<Rightarrow> string option \<Rightarrow> resolvedFormat" where
  "resolveFormat result explicitFormat tool =
     (case explicitFormat of
        Some f \<Rightarrow> Format f
      | None \<Rightarrow>
          (case tool of
             None \<Rightarrow> Format (detectFormatFromData (records result))
           | Some t \<Rightarrow>
               (if t \<noteq> [] then
                  (case readTable TARGET_TOOL_FORMAT_MAP t of
                     Own f \<Rightarrow> Format f
                   | Inherited name \<Rightarrow> PrototypeProperty name
                   | NoProperty \<Rightarrow> Format (detectFormatFromData (records result)))
                else Format (detectFormatFromData (records result)))))"

text \<open>
  The spec's measure of nesting, in its own words: a value that is not an object has
  depth 0, the empty object has depth 0, and an object has depth 1 plus the maximum depth
  of its values. \<open>maxDepthOfValues r\<close> is the maximum depth of the values of \<open>r\<close>.
\<close>

fun nestingDepth :: "jsval \<Rightarrow> nat"
  and maxDepthOfValues :: "jsrecord \<Rightarrow> nat" where
  "nestingDepth (JObj kvs) = (if kvs = [] then 0 else 1 + maxDepthOfValues kvs)"
| "nestingDepth JUndefined = 0"
| "nestingDepth JNull = 0"
| "nestingDepth (JBool b) = 0"
| "nestingDepth (JNum n) = 0"
| "nestingDepth (JStr s) = 0"
| "nestingDepth (JArr xs) = 0"
| "maxDepthOfValues [] = 0"
| "maxDepthOfValues ((k, v) # kvs) = max (nestingDepth v) (maxDepthOfValues kvs)"

text \<open>
  A target tool is unlisted when it is absent or has no entry in the preferred-format
  table; it is an inherited name when it names a property of \<open>Object.prototype\<close>.
\<close>

definition targetUnlisted :: "string option \<Rightarrow> bool" where
  "targetUnlisted tool = (case tool of None \<Rightarrow> True | Some t \<Rightarrow> TARGET_TOOL_FORMAT_MAP t = None)"

definition targetInherited :: "string option \<Rightarrow> bool" where
  "targetInherited tool = (case tool of None \<Rightarrow> False | Some t \<Rightarrow> t \<in> set objectPrototypeNames)"

section \<open>Format resolution: facts\<close>

lemma getMaxDepth_nesting:
  "getMaxDepth v d = d + nestingDepth v"
  "getMaxDepth_loop kvs d mx =
     (if kvs = [] then mx else max mx (d + 1 + maxDepthOfValues kvs))"
  by (induction v d and kvs d mx rule: getMaxDepth_getMaxDepth_loop.induct) auto

lemma resolveFormat_heuristic:
  "targetUnlisted tool \<Longrightarrow> \<not> targetInherited tool \<Longrightarrow>
   resolveFormat result None tool = Format (detectFormatFromData (records result))"
  by (auto simp: resolveFormat_def readTable_def targetUnlisted_def targetInherited_def
           split: option.splits)

lemma resolveFormat_inherited:
  "targetUnlisted (Some t) \<Longrightarrow> targetInherited (Some t) \<Longrightarrow>
   resolveFormat result None (Some t) = PrototypeProperty t"
  by (auto simp: resolveFormat_def readTable_def targetUnlisted_def targetInherited_def
                 objectPrototypeNames_def)

text \<open>The words of the claims about values: a non-object is a scalar, null or an array.\<close>

fun nonObject :: "jsval \<Rightarrow> bool" where
  "nonObject (JObj kvs) = False"
| "nonObject v = True"

lemma isFlatValue_nonObject: "isFlatValue v = nonObject v"
  by (cases v) (simp_all add: isFlatValue_def)

lemma isLongText_iff: "isLongText v = (\<exists>s. v = JStr s \<and> length s > 200)"
  by (cases v) simp_all

text \<open>
  C1, as the code has it. For a result with exactly one record, no explicit format and a
  target tool that is absent, or has no entry in the preferred-format table and is not the
  name of a property inherited from \<open>Object.prototype\<close>: the depth the code computes is
  the nesting depth of the record itself taken as an object (0 for a record without
  fields, otherwise 1 plus the maximum depth of its values), and resolution yields
  key-value when that depth is at most 2 and json when it is greater.
\<close>

theorem C1_single_record_resolution:
  assumes "targetUnlisted tool" and "\<not> targetInherited tool" and "records result = [r]"
  shows "getMaxDepth (JObj r) 0 = nestingDepth (JObj r)
       \<and> nestingDepth (JObj r) = (if r = [] then 0 else 1 + maxDepthOfValues r)
       \<and> resolveFormat result None tool
           = Format (if nestingDepth (JObj r) \<le> 2 then KeyValue else Json)"
proof -
  have d: "getMaxDepth (JObj r) 0 = nestingDepth (JObj r)"
    using getMaxDepth_nesting(1) [of "JObj r" 0] by simp
  have "detectFormatFromData [r] = (if nestingDepth (JObj r) \<le> 2 then KeyValue else Json)"
    unfolding detectFormatFromData_def Let_def using d by auto
  with assms d show ?thesis
    by (simp add: resolveFormat_heuristic)
qed

text \<open>
  The record \<open>{a:1, b:{c:2}}\<close> has depth 2 and resolves to key-value, here for the tool
  name \<open>extract_json\<close>, which the table does not list.
\<close>

theorem C1_single_record_resolution_witness:
  "targetUnlisted (Some ''extract_json'') \<and> \<not> targetInherited (Some ''extract_json'')
   \<and> getMaxDepth (JObj [(''a'', JNum 1), (''b'', JObj [(''c'', JNum 2)])]) 0 = 2
   \<and> resolveFormat
        \<lparr>metadata = \<lparr>source = SrcJson, extractedAt = '''', outputFormat = Json,
                     recordCount = 1, warnings = None, targetTool = None\<rparr>,
         records = [[(''a'', JNum 1), (''b'', JObj [(''c'', JNum 2)])]],
         fieldHints = None\<rparr> None (Some ''extract_json'') = Format KeyValue"
proof -
  have u: "targetUnlisted (Some ''extract_json'')"
    by (simp add: targetUnlisted_def TARGET_TOOL_FORMAT_MAP_def)
  have i: "\<not> targetInherited (Some ''extract_json'')"
    by (simp add: targetInherited_def objectPrototypeNames_def)
  from C1_single_record_resolution [OF u i,
        of "\<lparr>metadata = \<lparr>source = SrcJson, extractedAt = '''', outputFormat = Json,
                     recordCount = 1, warnings = None, targetTool = None\<rparr>,
          records = [[(''a'', JNum 1), (''b'', JObj [(''c'', JNum 2)])]],
          fieldHints = None\<rparr>"
        "[(''a'', JNum 1), (''b'', JObj [(''c'', JNum 2)])]"] u i
  show ?thesis by simp
qed

text \<open>
  C1 as stated fails: the values of the single record \<open>{a:{b:{c:1}}}\<close> have maximum
  nesting depth 2, yet resolution yields json, not key-value.
\<close>

theorem C1_depth_two_values_counterexample:
  "maxDepthOfValues [(''a'', JObj [(''b'', JObj [(''c'', JNum 1)])])] \<le> 2
   \<and> resolveFormat
        \<lparr>metadata = \<lparr>source = SrcJson, extractedAt = '''', outputFormat = Json,
                     recordCount = 1, warnings = None, targetTool = None\<rparr>,
         records = [[(''a'', JObj [(''b'', JObj [(''c'', JNum 1)])])]],
         fieldHints = None\<rparr> None None = Format Json"
  by (simp add: resolveFormat_def detectFormatFromData_def)

text \<open>
  The heuristic for more than one record, for a target tool that is absent, or has no
  entry in the preferred-format table and is not an inherited name: when every value of
  every record is a non-object and there are more than 3 records, resolution yields csv;
  otherwise, when some record has a string value longer than 200 characters, markdown;
  otherwise json.
\<close>

lemma multi_record_resolution:
  assumes "targetUnlisted tool" and "\<not> targetInherited tool" and "length (records result) > 1"
  shows "resolveFormat result None tool =
     Format (if (\<forall>r \<in> set (records result). \<forall>v \<in> set (Object_values r). nonObject v)
                \<and> length (records result) > 3 then Csv
             else if (\<exists>r \<in> set (records result). \<exists>v \<in> set (Object_values r).
                        \<exists>s. v = JStr s \<and> length s > 200) then Markdown
             else Json)"
proof -
  have flat: "list_all (\<lambda>r. list_all isFlatValue (Object_values r)) (records result)
      = (\<forall>r \<in> set (records result). \<forall>v \<in> set (Object_values r). nonObject v)"
    by (simp add: list_all_iff isFlatValue_nonObject)
  have long: "list_ex (\<lambda>r. list_ex isLongText (Object_values r)) (records result)
      = (\<exists>r \<in> set (records result). \<exists>v \<in> set (Object_values r).
            \<exists>s. v = JStr s \<and> length s > 200)"
    by (simp add: list_ex_iff isLongText_iff)
  have "resolveFormat result None tool = Format (detectFormatFromData (records result))"
    using assms(1,2) by (rule resolveFormat_heuristic)
  also have "detectFormatFromData (records result) =
     (if list_all (\<lambda>r. list_all isFlatValue (Object_values r)) (records result)
          \<and> length (records result) > 3 then Csv
      else if list_ex (\<lambda>r. list_ex isLongText (Object_values r)) (records result)
      then Markdown else Json)"
    using assms(3) by (simp add: detectFormatFromData_def Let_def)
  finally show ?thesis
    unfolding flat long .
qed

text \<open>Four records whose values are all non-objects, one of them an array.\<close>

definition fourFlatRecords :: ExtractionResult where
  "fourFlatRecords =
     \<lparr>metadata = \<lparr>source = SrcJson, extractedAt = ''2026-01-01T00:00:00.000Z'',
                  outputFormat = Json, recordCount = 4, warnings = None, targetTool = None\<rparr>,
      records = [[(''id'', JNum 1), (''tags'', JArr [JObj [(''t'', JNull)]])],
                 [(''id'', JNum 2)], [(''id'', JNum 3)], [(''id'', JStr ''x'')]],
      fieldHints = None\<rparr>"

text \<open>
  C2 at the tool name \<open>toString\<close>. The name has no entry in the preferred-format table,
  the result has four records whose values are all non-objects, and the heuristic gives
  csv for them (it is what resolution yields for the unlisted name \<open>extract_json\<close>); but
  for \<open>toString\<close> the read of the table finds the function every object inherits, which is
  truthy, and \<open>resolveFormat\<close> returns that function, not csv.
\<close>

theorem C2_inherited_tool_name:
  "TARGET_TOOL_FORMAT_MAP ''toString'' = None
   \<and> length (records fourFlatRecords) = 4
   \<and> (\<forall>r \<in> set (records fourFlatRecords). \<forall>v \<in> set (Object_values r). nonObject v)
   \<and> detectFormatFromData (records fourFlatRecords) = Csv
   \<and> resolveFormat fourFlatRecords None (Some ''extract_json'') = Format Csv
   \<and> resolveFormat fourFlatRecords None (Some ''toString'') = PrototypeProperty ''toString''"
  by (simp add: fourFlatRecords_def Object_values_def detectFormatFromData_def isFlatValue_def
        resolveFormat_def readTable_def TARGET_TOOL_FORMAT_MAP_def objectPrototypeNames_def)

theorem C2_inherited_tool_name_witness:
  "resolveFormat fourFlatRecords None (Some ''toString'') \<noteq> Format Csv"
  using C2_inherited_tool_name by simp

text \<open>
  The depth computation returns at an array without looking inside it. So for a
  single-record result (no explicit format; target tool absent, or without an entry in
  the preferred-format table and not an inherited name) whose record has no object among
  its own values, whatever the arrays hold, the computed depth is at most 1 and
  resolution yields key-value.
\<close>

lemma arrays_are_leaves:
  assumes "targetUnlisted tool" and "\<not> targetInherited tool" and "records result = [r]"
    and "\<forall>v \<in> set (Object_values r). nonObject v"
  shows "getMaxDepth (JArr xs) d = d
       \<and> getMaxDepth (JObj r) 0 \<le> 1
       \<and> resolveFormat result None tool = Format KeyValue"
proof -
  have "maxDepthOfValues r = 0"
    using assms(4)
  proof (induction r)
    case Nil
    then show ?case by simp
  next
    case (Cons kv r)
    obtain k v where kv: "kv = (k, v)" by (cases kv)
    from Cons.prems kv have "nonObject v" by (simp add: Object_values_def)
    then have "nestingDepth v = 0" by (cases v) simp_all
    moreover from Cons have "maxDepthOfValues r = 0" by (simp add: Object_values_def)
    ultimately show ?case using kv by simp
  qed
  then have le: "nestingDepth (JObj r) \<le> 1" by simp
  have d: "getMaxDepth (JObj r) 0 = nestingDepth (JObj r)"
    using getMaxDepth_nesting(1) [of "JObj r" 0] by simp
  have "detectFormatFromData [r] = KeyValue"
    unfolding detectFormatFromData_def Let_def using d le by auto
  with assms(1,2,3) d le show ?thesis
    by (simp add: resolveFormat_heuristic)
qed

text \<open>The record \<open>{a:[{b:{c:{d:1}}}]}\<close> of the claim, as a single-record result.\<close>

definition nestedInArray :: ExtractionResult where
  "nestedInArray =
     \<lparr>metadata = \<lparr>source = SrcJson, extractedAt = ''2026-01-01T00:00:00.000Z'',
                  outputFormat = Json, recordCount = 1, warnings = None, targetTool = None\<rparr>,
      records = [[(''a'', JArr [JObj [(''b'', JObj [(''c'', JObj [(''d'', JNum 1)])])]])]],
      fieldHints = None\<rparr>"

text \<open>
  C10 at the tool name \<open>valueOf\<close>. The depth computation does treat the array as a leaf:
  the depth of the record \<open>{a:[{b:{c:{d:1}}}]}\<close> is 1, and for an absent tool, or the
  unlisted name \<open>extract_json\<close>, resolution yields key-value. But \<open>valueOf\<close> has no entry
  in the preferred-format table either, and for it \<open>resolveFormat\<close> returns the function
  every object inherits under that name, not key-value.
\<close>

theorem C10_inherited_tool_name:
  "TARGET_TOOL_FORMAT_MAP ''valueOf'' = None
   \<and> records nestedInArray = [[(''a'', JArr [JObj [(''b'', JObj [(''c'', JObj [(''d'', JNum 1)])])]])]]
   \<and> getMaxDepth (JObj (records nestedInArray ! 0)) 0 = 1
   \<and> resolveFormat nestedInArray None None = Format KeyValue
   \<and> resolveFormat nestedInArray None (Some ''extract_json'') = Format KeyValue
   \<and> resolveFormat nestedInArray None (Some ''valueOf'') = PrototypeProperty ''valueOf''"
  by (simp add: nestedInArray_def detectFormatFromData_def
        resolveFormat_def readTable_def TARGET_TOOL_FORMAT_MAP_def objectPrototypeNames_def)

theorem C10_inherited_tool_name_witness:
  "resolveFormat nestedInArray None (Some ''valueOf'') \<noteq> Format KeyValue"
  using C10_inherited_tool_name by simp

section \<open>Strings\<close>

text \<open>\<open>s.includes(t)\<close>: \<open>t\<close> occurs in \<open>s\<close> as a contiguous substring.\<close>

fun str_includes :: "string \<Rightarrow> string \<Rightarrow> bool" where
  "str_includes [] t = (t = [])"
| "str_includes (c # cs) t = (prefix t (c # cs) \<or> str_includes cs t)"

text \<open>\<open>xs.join(sep)\<close> on an array of strings.\<close>

fun join :: "string \<Rightarrow> string list \<Rightarrow> string" where
  "join sep [] = []"
| "join sep [x] = x"
| "join sep (x # y # ys) = x @ sep @ join sep (y # ys)"

text \<open>\<open>s.split(d)\<close> for a separator of one character: never the empty array.\<close>

fun splitOn :: "char \<Rightarrow> string \<Rightarrow> string list" where
  "splitOn d [] = [[]]"
| "splitOn d (c # cs) =
     (if c = d then [] # splitOn d cs
      else (case splitOn d cs of
              [] \<Rightarrow> [[c]]
            | x # xs \<Rightarrow> (c # x) # xs))"

text \<open>
  Decimal text of a number, as \<open>String(n)\<close> prints an integer of magnitude below
  \<open>10^21\<close>; from there on \<open>String\<close> uses the exponent form, which is not modelled.
\<close>

definition digitChar :: "nat \<Rightarrow> char" where
  "digitChar d = char_of (48 + d)"

fun showNat :: "nat \<Rightarrow> string" where
  "showNat n = (if n < 10 then [digitChar n] else showNat (n div 10) @ [digitChar (n mod 10)])"

declare showNat.simps [simp del]

definition showInt :: "int \<Rightarrow> string" where
  "showInt i = (if i < 0 then CHR ''-'' # showNat (nat (- i)) else showNat (nat i))"

definition isDigit :: "char \<Rightarrow> bool" where
  "isDigit c = (48 \<le> (of_char c :: nat) \<and> (of_char c :: nat) \<le> 57)"

definition digitsValue :: "string \<Rightarrow> nat" where
  "digitsValue ds = foldl (\<lambda>n c. 10 * n + (of_char c - 48)) 0 ds"

section \<open>Writing object properties\<close>

text \<open>
  A key is an array index when it is the decimal text of a number below \<open>2^32 - 1\<close>.
  An object enumerates its array-index keys first, in ascending order, then its other
  keys in the order they were created.
\<close>

definition isArrayIndex :: "string \<Rightarrow> bool" where
  "isArrayIndex k =
     (k \<noteq> [] \<and> list_all isDigit k \<and> (k = ''0'' \<or> take 1 k \<noteq> ''0'')
      \<and> digitsValue k < 2 ^ 32 - 1)"

fun insertIndexed :: "jsrecord \<Rightarrow> string \<Rightarrow> jsval \<Rightarrow> jsrecord" where
  "insertIndexed [] k v = [(k, v)]"
| "insertIndexed ((k', v') # kvs) k v =
     (if isArrayIndex k' \<and> digitsValue k' < digitsValue k
      then (k', v') # insertIndexed kvs k v
      else (k, v) # (k', v') # kvs)"

text \<open>
  Assignment \<open>obj[k] = v\<close> on an ordinary object: an existing property keeps its place.
  A write to \<open>__proto__\<close> on an object that does not own that name goes to the setter
  every object inherits and creates no property (the change of prototype it can cause
  is not modelled: it shows only in reads of names the object does not own).
\<close>

definition setProp :: "jsrecord \<Rightarrow> string \<Rightarrow> jsval \<Rightarrow> jsrecord" where
  "setProp kvs k v =
     (if k \<in> set (map fst kvs) then map (\<lambda>(k', v'). if k' = k then (k', v) else (k', v')) kvs
      else if k = ''__proto__'' then kvs
      else if isArrayIndex k then insertIndexed kvs k v
      else kvs @ [(k, v)])"

text \<open>\<open>Object.assign(target, src)\<close>.\<close>

definition Object_assign :: "jsrecord \<Rightarrow> jsrecord \<Rightarrow> jsrecord" where
  "Object_assign target src = fold (\<lambda>(k, v) t. setProp t k v) src target"

section \<open>JSON text\<close>

text \<open>
  \<open>JSON.stringify(value, null, gap)\<close> on the values above; \<open>gap\<close> is the indentation unit
  (empty for the one-argument call, two spaces for \<open>JSON.stringify(v, null, 2)\<close>). The
  result is \<open>None\<close> where JavaScript returns \<open>undefined\<close>. A property whose value does
  not serialise is left out of its object; such an element of an array prints as null.
\<close>

definition hexDigit :: "nat \<Rightarrow> char" where
  "hexDigit d = (if d < 10 then char_of (48 + d) else char_of (87 + d))"

definition quoteChar :: "char \<Rightarrow> string" where
  "quoteChar c =
     (if c = CHR 0x22 then [CHR 0x5C, CHR 0x22]
      else if c = CHR 0x5C then [CHR 0x5C, CHR 0x5C]
      else if c = CHR 0x08 then [CHR 0x5C, CHR ''b'']
      else if c = CHR 0x0C then [CHR 0x5C, CHR ''f'']
      else if c = CHR 0x0A then [CHR 0x5C, CHR ''n'']
      else if c = CHR 0x0D then [CHR 0x5C, CHR ''r'']
      else if c = CHR 0x09 then [CHR 0x5C, CHR ''t'']
      else if of_char c < (32::nat) then
        [CHR 0x5C, CHR ''u'', CHR ''0'', CHR ''0'',
         hexDigit (of_char c div 16), hexDigit (of_char c mod 16)]
      else [c])"

definition quoteJSON :: "string \<Rightarrow> string" where
  "quoteJSON s = CHR 0x22 # concat (map quoteChar s) @ [CHR 0x22]"

definition wrapJSON :: "string \<Rightarrow> string \<Rightarrow> char \<Rightarrow> char \<Rightarrow> string list \<Rightarrow> string" where
  "wrapJSON gap stepback opn cls partial =
     (let indent = stepback @ gap in
      if partial = [] then [opn, cls]
      else if gap = [] then opn # join '','' partial @ [cls]
      else opn # CHR 0x0A # indent @ join (CHR '','' # CHR 0x0A # indent) partial
             @ CHR 0x0A # stepback @ [cls])"

fun stringify :: "string \<Rightarrow> string \<Rightarrow> jsval \<Rightarrow> string option"
  and stringify_props :: "string \<Rightarrow> string \<Rightarrow> jsrecord \<Rightarrow> string list"
  and stringify_elems :: "string \<Rightarrow> string \<Rightarrow> jsval list \<Rightarrow> string list" where
  "stringify gap stepback JUndefined = None"
| "stringify gap stepback JNull = Some ''null''"
| "stringify gap stepback (JBool b) = Some (if b then ''true'' else ''false'')"
| "stringify gap stepback (JNum n) = Some (showInt n)"
| "stringify gap stepback (JStr s) = Some (quoteJSON s)"
| "stringify gap stepback (JArr xs) =
     Some (wrapJSON gap stepback CHR ''['' CHR '']'' (stringify_elems gap (stepback @ gap) xs))"
| "stringify gap stepback (JObj kvs) =
     Some (wrapJSON gap stepback CHR ''{'' CHR ''}'' (stringify_props gap (stepback @ gap) kvs))"
| "stringify_props gap indent [] = []"
| "stringify_props gap indent ((k, v) # kvs) =
     (case stringify gap indent v of
        None \<Rightarrow> stringify_props gap indent kvs
      | Some str \<Rightarrow>
          (quoteJSON k @ '':'' @ (if gap \<noteq> [] then '' '' else []) @ str)
            # stringify_props gap indent kvs)"
| "stringify_elems gap indent [] = []"
| "stringify_elems gap indent (x # xs) =
     (case stringify gap indent x of None \<Rightarrow> ''null'' | Some str \<Rightarrow> str)
       # stringify_elems gap indent xs"

section \<open>Output formatter: the csv renderer\<close>

text \<open>A \<open>Set\<close> of strings keeps the order of first insertion.\<close>

definition setAdd :: "string list \<Rightarrow> string \<Rightarrow> string list" where
  "setAdd ks k = (if k \<in> set ks then ks else ks @ [k])"

definition csvCell :: "jsval \<Rightarrow> string" where
  "csvCell val =
     (if val = JUndefined \<or> val = JNull then []
      else
        (let str = (if typeof val = ''object''
                    then (case stringify [] [] val of Some s \<Rightarrow> s | None \<Rightarrow> [])
                    else (case val of
                            JStr s \<Rightarrow> s
                          | JNum n \<Rightarrow> showInt n
                          | JBool b \<Rightarrow> (if b then ''true'' else ''false'')
                          | _ \<Rightarrow> []))
         in if str_includes str '','' \<or> str_includes str [CHR 0x22] \<or> str_includes str [CHR 0x0A]
            then CHR 0x22 # concat (map (\<lambda>c. if c = CHR 0x22 then [CHR 0x22, CHR 0x22] else [c]) str)
                   @ [CHR 0x22]
            else str))"

definition renderCsv :: "ExtractionResult \<Rightarrow> string" where
  "renderCsv result =
     (let md = metadata result; rs = records result in
      if length rs = 0 then
        ''# source: '' @ sourceText (source md) @ '' | records: 0'' @ [CHR 0x0A] @ ''(no data)''
      else
        (let headers = fold (\<lambda>r ks. fold (\<lambda>k ks'. setAdd ks' k) (Object_keys r) ks) rs [];
             lines = [''# source: '' @ sourceText (source md) @ '' | extractedAt: '' @ extractedAt md
                        @ '' | records: '' @ showNat (recordCount md),
                      join '','' headers]
                     @ map (\<lambda>r. join '','' (map (\<lambda>h. csvCell (getProp r h)) headers)) rs
         in join [CHR 0x0A] lines))"

lemma splitOn_no_sep: "d \<notin> set s \<Longrightarrow> splitOn d s = [s]"
  by (induction s) auto

lemma splitOn_append_sep:
  "d \<notin> set a \<Longrightarrow> splitOn d (a @ d # b) = a # splitOn d b"
  by (induction a) auto

lemma sourceText_no_newline: "CHR 0x0A \<notin> set (sourceText s)"
  by (cases s) simp_all

text \<open>
  C4. A result with no records resolves, with no explicit format and no target tool, to
  json; and the csv renderer gives for it exactly two lines: one comment line (source and
  a record count of 0) and the literal \<open>(no data)\<close>, with no header row.
\<close>

theorem C4_zero_records:
  assumes "records result = []"
  shows "resolveFormat result None None = Format Json
       \<and> renderCsv result
           = ''# source: '' @ sourceText (source (metadata result)) @ '' | records: 0''
               @ [CHR 0x0A] @ ''(no data)''
       \<and> splitOn (CHR 0x0A) (renderCsv result)
           = [''# source: '' @ sourceText (source (metadata result)) @ '' | records: 0'',
              ''(no data)'']"
proof -
  let ?c = "''# source: '' @ sourceText (source (metadata result)) @ '' | records: 0''"
  have r: "renderCsv result = ?c @ CHR 0x0A # ''(no data)''"
    using assms by (simp add: renderCsv_def Let_def)
  have "CHR 0x0A \<notin> set ?c"
    using sourceText_no_newline by simp
  then have "splitOn (CHR 0x0A) (?c @ CHR 0x0A # ''(no data)'') = ?c # splitOn (CHR 0x0A) ''(no data)''"
    by (rule splitOn_append_sep)
  moreover have "splitOn (CHR 0x0A) ''(no data)'' = [''(no data)'']"
    by (rule splitOn_no_sep) simp
  ultimately have "splitOn (CHR 0x0A) (renderCsv result) = [?c, ''(no data)'']"
    using r by simp
  moreover have "resolveFormat result None None = Format Json"
    using assms by (simp add: resolveFormat_def detectFormatFromData_def)
  ultimately show ?thesis using r by simp
qed

theorem C4_zero_records_witness:
  "renderCsv
     \<lparr>metadata = \<lparr>source = SrcPdf, extractedAt = ''2026-01-01T00:00:00.000Z'',
                  outputFormat = Json, recordCount = 0, warnings = None, targetTool = None\<rparr>,
      records = [], fieldHints = None\<rparr>
   = ''# source: pdf | records: 0'' @ [CHR 0x0A] @ ''(no data)''"
  using C4_zero_records [of
     "\<lparr>metadata = \<lparr>source = SrcPdf, extractedAt = ''2026-01-01T00:00:00.000Z'',
                  outputFormat = Json, recordCount = 0, warnings = None, targetTool = None\<rparr>,
      records = [], fieldHints = None\<rparr>"]
  by simp

section \<open>The token cache\<close>

text \<open>
  \<open>AuthProvider.getToken\<close>. Times are milliseconds (\<open>Date.now()\<close>). The answer of the
  token endpoint is an input: what it would return if it were asked. The result carries
  the cache after the call and whether the endpoint was asked. The tenant, client and
  scope only shape the request and are left out; so is logging.
\<close>

record CachedToken =
  accessToken :: string
  expiresAt :: int

type_synonym tokenCache = "string \<rightharpoonup> CachedToken"

datatype tokenResponse =
    Granted string int
  | Refused nat
  | FetchFailed string

definition acquireToken ::
  "tokenCache \<Rightarrow> int \<Rightarrow> string \<Rightarrow> tokenResponse \<Rightarrow> (string + string) \<times> tokenCache \<times> bool" where
  "acquireToken cache now cacheKey resp =
     (case resp of
        FetchFailed msg \<Rightarrow> (Inl msg, cache, True)
      | Refused status \<Rightarrow>
          (Inl (''Authentication failed ('' @ showNat status @ ''): Unable to acquire token for ''
                  @ cacheKey @ ''. Check your credentials.''), cache, True)
      | Granted access_token expires_in \<Rightarrow>
          (let token = \<lparr>accessToken = access_token, expiresAt = now + expires_in * 1000\<rparr>
           in (Inr (accessToken token), cache(cacheKey \<mapsto> token), True)))"

definition getToken ::
  "tokenCache \<Rightarrow> int \<Rightarrow> string \<Rightarrow> tokenResponse \<Rightarrow> (string + string) \<times> tokenCache \<times> bool" where
  "getToken cache now cacheKey resp =
     (case cache cacheKey of
        Some cached \<Rightarrow>
          (if expiresAt cached > now + 5 * 60 * 1000
           then (Inr (accessToken cached), cache, False)
           else acquireToken cache now cacheKey resp)
      | None \<Rightarrow> acquireToken cache now cacheKey resp)"

text \<open>A run of calls, each given as (time, cache key, answer of the endpoint).\<close>

type_synonym tokenCall = "int \<times> string \<times> tokenResponse"

fun getTokens :: "tokenCache \<Rightarrow> tokenCall list \<Rightarrow> ((string + string) \<times> bool) list \<times> tokenCache" where
  "getTokens cache [] = ([], cache)"
| "getTokens cache ((now, key, resp) # calls) =
     (case getToken cache now key resp of
        (res, cache', fetched) \<Rightarrow>
          (case getTokens cache' calls of
             (outs, cache'') \<Rightarrow> ((res, fetched) # outs, cache'')))"

lemma getToken_hit:
  assumes "cache k = Some \<lparr>accessToken = tok, expiresAt = T + 3600 * 1000\<rparr>"
    and "now < T + 3300 * 1000"
  shows "getToken cache now k resp = (Inr tok, cache, False)"
  using assms by (simp add: getToken_def)

lemma getToken_other_key:
  assumes "getToken cache now key resp = (res, cache', fetched)" and "key \<noteq> k"
  shows "cache' k = cache k"
  using assms
  by (auto simp: getToken_def acquireToken_def Let_def split: option.splits if_splits tokenResponse.splits)

lemma getTokens_window:
  assumes "cache k = Some \<lparr>accessToken = tok, expiresAt = T + 3600 * 1000\<rparr>"
    and "\<forall>c \<in> set calls. fst c < T + 3300 * 1000"
    and "getTokens cache calls = (outs, cache')"
  shows "length outs = length calls
       \<and> (\<forall>i < length calls. fst (snd (calls ! i)) = k \<longrightarrow> outs ! i = (Inr tok, False))
       \<and> cache' k = Some \<lparr>accessToken = tok, expiresAt = T + 3600 * 1000\<rparr>"
  using assms
proof (induction calls arbitrary: cache outs cache')
  case Nil
  then show ?case by simp
next
  case (Cons c calls)
  obtain now key resp where c: "c = (now, key, resp)" by (cases c)
  obtain res c1 f where g: "getToken cache now key resp = (res, c1, f)"
    by (cases "getToken cache now key resp")
  obtain outs1 c2 where r: "getTokens c1 calls = (outs1, c2)"
    by (cases "getTokens c1 calls")
  from Cons.prems(3) c g r have o: "outs = (res, f) # outs1" and c': "cache' = c2"
    by simp_all
  from Cons.prems(2) c have now: "now < T + 3300 * 1000" by simp
  have keep: "c1 k = Some \<lparr>accessToken = tok, expiresAt = T + 3600 * 1000\<rparr>"
  proof (cases "key = k")
    case True
    with getToken_hit [where cache = cache and k = k and tok = tok and T = T and now = now
        and resp = resp, OF Cons.prems(1) now] g show ?thesis
      using Cons.prems(1) by simp
  next
    case False
    with getToken_other_key [OF g] Cons.prems(1) show ?thesis by simp
  qed
  have hd: "key = k \<Longrightarrow> (res, f) = (Inr tok, False)"
    using getToken_hit [where cache = cache and k = k and tok = tok and T = T and now = now
        and resp = resp, OF Cons.prems(1) now] g by simp
  from Cons.prems(2) have "\<forall>c \<in> set calls. fst c < T + 3300 * 1000" by simp
  from Cons.IH [OF keep this r]
  have ih: "length outs1 = length calls"
    "\<forall>i < length calls. fst (snd (calls ! i)) = k \<longrightarrow> outs1 ! i = (Inr tok, False)"
    "c2 k = Some \<lparr>accessToken = tok, expiresAt = T + 3600 * 1000\<rparr>"
    by simp_all
  have "\<forall>i < length (c # calls). fst (snd ((c # calls) ! i)) = k \<longrightarrow> outs ! i = (Inr tok, False)"
  proof (intro allI impI)
    fix i assume i: "i < length (c # calls)" and k: "fst (snd ((c # calls) ! i)) = k"
    show "outs ! i = (Inr tok, False)"
    proof (cases i)
      case 0
      with k c hd o show ?thesis by simp
    next
      case (Suc j)
      with i k ih(2) o show ?thesis by simp
    qed
  qed
  with ih o c' show ?case by simp
qed

text \<open>
  C7. Suppose a call of getToken at time \<open>T\<close> asks the endpoint and caches a token granted
  with \<open>expires_in = 3600\<close>. Then, over any run of later calls made strictly before
  \<open>T + 3300\<close> seconds, each call with the same cache key returns the cached token and
  does not ask the endpoint; and a call with that key at or after \<open>T + 3300\<close> seconds
  asks the endpoint again.
\<close>

theorem C7_token_cache_window:
  assumes "getToken c0 T k (Granted tok 3600) = (res0, c1, True)"
    and "\<forall>c \<in> set calls. fst c < T + 3300 * 1000"
    and "getTokens c1 calls = (outs, c2)"
  shows "res0 = Inr tok
       \<and> (\<forall>i < length calls. fst (snd (calls ! i)) = k \<longrightarrow> outs ! i = (Inr tok, False))
       \<and> (\<forall>now resp. T + 3300 * 1000 \<le> now \<longrightarrow> snd (snd (getToken c2 now k resp)))"
proof -
  from assms(1) have c1: "c1 k = Some \<lparr>accessToken = tok, expiresAt = T + 3600 * 1000\<rparr>"
    and r0: "res0 = Inr tok"
    by (auto simp: getToken_def acquireToken_def Let_def split: option.splits if_splits)
  from getTokens_window [OF c1 assms(2,3)]
  have w: "\<forall>i < length calls. fst (snd (calls ! i)) = k \<longrightarrow> outs ! i = (Inr tok, False)"
    and c2: "c2 k = Some \<lparr>accessToken = tok, expiresAt = T + 3600 * 1000\<rparr>"
    by simp_all
  have "\<forall>now resp. T + 3300 * 1000 \<le> now \<longrightarrow> snd (snd (getToken c2 now k resp))"
    using c2
    by (auto simp: getToken_def acquireToken_def Let_def split: tokenResponse.splits)
  with r0 w show ?thesis by simp
qed

theorem C7_token_cache_window_witness:
  "getTokens [''graph'' \<mapsto> \<lparr>accessToken = ''t1'', expiresAt = 3600000\<rparr>]
      [(1000, ''graph'', FetchFailed ''down''), (3299999, ''graph'', Granted ''t2'' 3600)]
     = ([(Inr ''t1'', False), (Inr ''t1'', False)],
        [''graph'' \<mapsto> \<lparr>accessToken = ''t1'', expiresAt = 3600000\<rparr>])
   \<and> snd (snd (getToken [''graph'' \<mapsto> \<lparr>accessToken = ''t1'', expiresAt = 3600000\<rparr>]
                  3300000 ''graph'' (Granted ''t2'' 3600)))"
proof -
  let ?c1 = "[''graph'' \<mapsto> \<lparr>accessToken = ''t1'', expiresAt = 3600000\<rparr>]"
  let ?calls = "[(1000::int, ''graph'', FetchFailed ''down''), (3299999, ''graph'', Granted ''t2'' 3600)]"
  have a: "getToken Map.empty 0 ''graph'' (Granted ''t1'' 3600) = (Inr ''t1'', ?c1, True)"
    by (simp add: getToken_def acquireToken_def)
  have b: "\<forall>c \<in> set ?calls. fst c < 0 + 3300 * 1000" by simp
  have c: "getTokens ?c1 ?calls = ([(Inr ''t1'', False), (Inr ''t1'', False)], ?c1)"
    by (simp add: getToken_def)
  from C7_token_cache_window [OF a b c] c show ?thesis by simp
qed

section \<open>The Dataverse extraction tool: pagination\<close>

text \<open>
  The handler of \<open>extract_dataverse\<close>, from the construction of the first URL to the
  result it hands to the formatter. The server is an input: \<open>srv n url\<close> is the answer to
  the \<open>n\<close>-th request (counted from 0) when it asks for \<open>url\<close>. An answer is an exception
  (thrown by \<open>fetch\<close> or by \<open>response.json()\<close>), a status that is not ok with its body
  text, or a page with its \<open>value\<close> and its \<open>@odata.nextLink\<close>, either of which may be
  missing. The first component of every result is the number of requests made.
  Token and environment lookup before the loop, logging, and clearing the token cache on
  status 401 are left out.
\<close>

datatype httpResponse =
    FetchThrows string
  | HttpError nat string
  | HttpOk "jsrecord list option" "string option"

definition startsWith :: "string \<Rightarrow> string \<Rightarrow> bool" where
  "startsWith s t = prefix t s"

definition endsWith :: "string \<Rightarrow> string \<Rightarrow> bool" where
  "endsWith s t = suffix t s"

fun stripODataAnnotations_loop :: "jsrecord \<Rightarrow> jsrecord \<Rightarrow> jsrecord" where
  "stripODataAnnotations_loop [] cleaned = cleaned"
| "stripODataAnnotations_loop ((key, val) # kvs) cleaned =
     (if startsWith key ''@odata.'' \<or> startsWith key ''@Microsoft.''
         \<or> (startsWith key ''_'' \<and> endsWith key ''_value'')
      then stripODataAnnotations_loop kvs cleaned
      else stripODataAnnotations_loop kvs (setProp cleaned key val))"

definition stripODataAnnotations :: "jsrecord \<Rightarrow> jsrecord" where
  "stripODataAnnotations record = stripODataAnnotations_loop record []"

definition truthyLink :: "string option \<Rightarrow> bool" where
  "truthyLink l = (case l of None \<Rightarrow> False | Some u \<Rightarrow> u \<noteq> [])"

definition maxPages :: nat where
  "maxPages = 5"

text \<open>\<open>Math.min(top || 50, 500)\<close>: an absent or zero \<open>top\<close> is falsy.\<close>

definition maxTopOf :: "int option \<Rightarrow> int" where
  "maxTopOf reqTop = min (case reqTop of None \<Rightarrow> 50 | Some t \<Rightarrow> if t = 0 then 50 else t) 500"

text \<open>\<open>xs.slice(0, m)\<close>: a negative \<open>m\<close> counts from the end.\<close>

definition slice0 :: "'a list \<Rightarrow> int \<Rightarrow> 'a list" where
  "slice0 xs m = (if 0 \<le> m then take (nat m) xs else take (length xs - nat (- m)) xs)"

definition dataverseErrorText :: "string \<Rightarrow> nat \<Rightarrow> string \<Rightarrow> string" where
  "dataverseErrorText table status errorText =
     (if status = 401 then
        ''Authentication failed (401). Token may be expired or invalid. Check your Dataverse credentials.''
      else if status = 404 then
        ''Table '' @ [CHR 0x27] @ table @ [CHR 0x27] @ '' not found. Verify the logical name (e.g. ''
          @ [CHR 0x27] @ ''accounts'' @ [CHR 0x27] @ '', '' @ [CHR 0x27] @ ''contacts'' @ [CHR 0x27] @ '').''
      else ''Dataverse API error ('' @ showNat status @ ''): '' @ take 300 errorText)"

function paginate ::
  "(nat \<Rightarrow> string \<Rightarrow> httpResponse) \<Rightarrow> string \<Rightarrow> int \<Rightarrow> jsrecord list \<Rightarrow> string option \<Rightarrow> nat
     \<Rightarrow> nat \<times> (string + jsrecord list \<times> string option)" where
  "paginate srv table maxTop allRecords nextLink pageCount =
     (if truthyLink nextLink \<and> int (length allRecords) < maxTop \<and> pageCount < maxPages then
        (case srv pageCount (case nextLink of Some u \<Rightarrow> u | None \<Rightarrow> []) of
           FetchThrows msg \<Rightarrow> (pageCount + 1, Inl (''Extraction failed: '' @ msg))
         | HttpError status errorText \<Rightarrow>
             (pageCount + 1, Inl (dataverseErrorText table status errorText))
         | HttpOk val next \<Rightarrow>
             paginate srv table maxTop
               (allRecords @ map stripODataAnnotations (case val of None \<Rightarrow> [] | Some rs \<Rightarrow> rs))
               next (pageCount + 1))
      else (pageCount, Inr (allRecords, nextLink)))"
  by pat_completeness auto
termination
  by (relation "measure (\<lambda>(srv, table, maxTop, allRecords, nextLink, pageCount). maxPages - pageCount)")
     auto

declare paginate.simps [simp del]

definition moreRecordsWarning :: "nat \<Rightarrow> string" where
  "moreRecordsWarning n =
     ''More records available in Dataverse. Showing first '' @ showNat n @ '' results.''"

definition extractDataverse ::
  "(nat \<Rightarrow> string \<Rightarrow> httpResponse) \<Rightarrow> string \<Rightarrow> int option \<Rightarrow> string \<Rightarrow> string \<Rightarrow> string
     \<Rightarrow> nat \<times> (string + ExtractionResult)" where
  "extractDataverse srv table reqTop baseUrl params nowIso =
     (let maxTop = maxTopOf reqTop in
      case paginate srv table maxTop [] (Some (baseUrl @ ''?'' @ params)) 0 of
        (fetches, Inl text) \<Rightarrow> (fetches, Inl text)
      | (fetches, Inr (fetched, nextLink)) \<Rightarrow>
          (let allRecords = (if int (length fetched) > maxTop then slice0 fetched maxTop else fetched);
               warnings = (if truthyLink nextLink \<and> int (length allRecords) \<ge> maxTop
                           then [moreRecordsWarning (length allRecords)] else [])
           in (fetches,
               Inr \<lparr>metadata = \<lparr>source = SrcDataverse, extractedAt = nowIso, outputFormat = Json,
                                 recordCount = length allRecords,
                                 warnings = (if length warnings > 0 then Some warnings else None),
                                 targetTool = None\<rparr>,
                    records = allRecords, fieldHints = None\<rparr>)))"

lemma paginate_fetches:
  "pageCount \<le> maxPages \<Longrightarrow>
   fst (paginate srv table maxTop allRecords nextLink pageCount) \<le> maxPages"
proof (induction srv table maxTop allRecords nextLink pageCount rule: paginate.induct)
  case (1 srv table maxTop allRecords nextLink pageCount)
  show ?case
  proof (cases "truthyLink nextLink \<and> int (length allRecords) < maxTop \<and> pageCount < maxPages")
    case False
    then have "paginate srv table maxTop allRecords nextLink pageCount
                 = (pageCount, Inr (allRecords, nextLink))"
      by (subst paginate.simps) auto
    then show ?thesis using "1.prems" by simp
  next
    case True
    then have lt: "pageCount < maxPages" by simp
    show ?thesis
    proof (cases "srv pageCount (case nextLink of Some u \<Rightarrow> u | None \<Rightarrow> [])")
      case (FetchThrows msg)
      with True have "fst (paginate srv table maxTop allRecords nextLink pageCount) = pageCount + 1"
        by (subst paginate.simps) simp
      with lt show ?thesis by simp
    next
      case (HttpError status errorText)
      with True have "fst (paginate srv table maxTop allRecords nextLink pageCount) = pageCount + 1"
        by (subst paginate.simps) simp
      with lt show ?thesis by simp
    next
      case (HttpOk val nxt)
      with True have "paginate srv table maxTop allRecords nextLink pageCount
          = paginate srv table maxTop
              (allRecords @ map stripODataAnnotations (case val of None \<Rightarrow> [] | Some rs \<Rightarrow> rs))
              nxt (pageCount + 1)"
        by (subst paginate.simps) simp
      moreover from lt have "pageCount + 1 \<le> maxPages" by simp
      ultimately show ?thesis using "1.IH" [OF True HttpOk] by simp
    qed
  qed
qed

lemma slice0_length: "0 \<le> m \<Longrightarrow> int (length (slice0 xs m)) \<le> m"
  by (auto simp: slice0_def)

lemma paginate_no_room:
  "maxTop \<le> 0 \<Longrightarrow> paginate srv table maxTop [] nextLink 0 = (0, Inr ([], nextLink))"
  by (subst paginate.simps) auto

text \<open>
  The bounds of the handler. In every run at most 5 pages are requested. When
  it produces a result, the number of records returned is at most
  \<open>maxTop = min(top || 50, 500)\<close> (never below 0): at most \<open>min(top, 500)\<close> for a positive
  requested top and at most 50 when the top is absent or 0; the record count of the
  metadata is that number. Whenever a continuation link is still present when fetching
  stops and the number of records has reached \<open>maxTop\<close>, the metadata carries the warning
  that more records are available, and no further page is requested.
\<close>

lemma dataverse_pagination:
  assumes "extractDataverse srv table reqTop baseUrl params nowIso = (fetches, out)"
  shows "fetches \<le> 5
       \<and> (\<forall>result. out = Inr result \<longrightarrow>
            int (length (records result)) \<le> max 0 (maxTopOf reqTop)
          \<and> (\<forall>t. reqTop = Some t \<and> 0 < t \<longrightarrow> int (length (records result)) \<le> min t 500)
          \<and> (reqTop = None \<or> reqTop = Some 0 \<longrightarrow> length (records result) \<le> 50)
          \<and> recordCount (metadata result) = length (records result)
          \<and> (\<forall>fetched nextLink.
                paginate srv table (maxTopOf reqTop) [] (Some (baseUrl @ ''?'' @ params)) 0
                  = (fetches, Inr (fetched, nextLink))
                \<and> truthyLink nextLink \<and> maxTopOf reqTop \<le> int (length (records result))
                \<longrightarrow> warnings (metadata result)
                      = Some [moreRecordsWarning (length (records result))]))"
proof -
  let ?p = "paginate srv table (maxTopOf reqTop) [] (Some (baseUrl @ ''?'' @ params)) 0"
  have f: "fst ?p \<le> maxPages"
    by (rule paginate_fetches) simp
  have fe: "fetches = fst ?p"
    using assms by (auto simp: extractDataverse_def Let_def split: prod.splits sum.splits)
  have 1: "fetches \<le> 5" using f fe by (simp add: maxPages_def)
  have 2: "\<forall>result. out = Inr result \<longrightarrow>
            int (length (records result)) \<le> max 0 (maxTopOf reqTop)
          \<and> recordCount (metadata result) = length (records result)
          \<and> (\<forall>fetched nextLink. ?p = (fetches, Inr (fetched, nextLink))
                \<and> truthyLink nextLink \<and> maxTopOf reqTop \<le> int (length (records result))
                \<longrightarrow> warnings (metadata result)
                      = Some [moreRecordsWarning (length (records result))])"
  proof (intro allI impI)
    fix result assume o: "out = Inr result"
    from assms o obtain fetched nextLink where p: "?p = (fetches, Inr (fetched, nextLink))"
      by (auto simp: extractDataverse_def Let_def split: prod.splits sum.splits)
    let ?all = "if int (length fetched) > maxTopOf reqTop then slice0 fetched (maxTopOf reqTop) else fetched"
    from assms o p have r: "records result = ?all"
      and c: "recordCount (metadata result) = length ?all"
      and w: "warnings (metadata result)
              = (if truthyLink nextLink \<and> int (length ?all) \<ge> maxTopOf reqTop
                 then Some [moreRecordsWarning (length ?all)] else None)"
      by (auto simp: extractDataverse_def Let_def)
    have "int (length ?all) \<le> max 0 (maxTopOf reqTop)"
    proof (cases "0 \<le> maxTopOf reqTop")
      case True
      then show ?thesis using slice0_length [of "maxTopOf reqTop" fetched] by auto
    next
      case False
      then have "fetched = []" using p paginate_no_room [of "maxTopOf reqTop" srv table] by simp
      then show ?thesis by (simp add: slice0_def)
    qed
    with r c w p
    show "int (length (records result)) \<le> max 0 (maxTopOf reqTop)
          \<and> recordCount (metadata result) = length (records result)
          \<and> (\<forall>fetched nextLink. ?p = (fetches, Inr (fetched, nextLink))
                \<and> truthyLink nextLink \<and> maxTopOf reqTop \<le> int (length (records result))
                \<longrightarrow> warnings (metadata result)
                      = Some [moreRecordsWarning (length (records result))])"
      by auto
  qed
  have 3: "\<And>t. reqTop = Some t \<Longrightarrow> 0 < t \<Longrightarrow> max 0 (maxTopOf reqTop) = min t 500"
    by (simp add: maxTopOf_def)
  have 4: "reqTop = None \<or> reqTop = Some 0 \<Longrightarrow> max 0 (maxTopOf reqTop) = 50"
    by (auto simp: maxTopOf_def)
  from 1 2 3 4 show ?thesis
    by (metis nat_int nat_le_iff of_nat_numeral)
qed

text \<open>
  A server for the examples: every page holds one record (with an annotation that is
  stripped) and always names a next page.
\<close>

definition pagedServer :: "nat \<Rightarrow> string \<Rightarrow> httpResponse" where
  "pagedServer n url =
     HttpOk (Some [[(''id'', JNum (int n)), (''@odata.etag'', JStr ''W'')]]) (Some ''next'')"

lemma dataverse_pagination_example:
  "extractDataverse pagedServer ''accounts'' (Some 3)
     ''https://org.crm.dynamics.com/api/data/v9.2/accounts'' ''%24top=3'' ''2026-01-01T00:00:00.000Z''
   = (3, Inr \<lparr>metadata = \<lparr>source = SrcDataverse, extractedAt = ''2026-01-01T00:00:00.000Z'',
                             outputFormat = Json, recordCount = 3,
                             warnings = Some [''More records available in Dataverse. Showing first 3 results.''],
                             targetTool = None\<rparr>,
                records = [[(''id'', JNum 0)], [(''id'', JNum 1)], [(''id'', JNum 2)]],
                fieldHints = None\<rparr>)
   \<and> (3::nat) \<le> 5"
proof -
  have e: "extractDataverse pagedServer ''accounts'' (Some 3)
     ''https://org.crm.dynamics.com/api/data/v9.2/accounts'' ''%24top=3'' ''2026-01-01T00:00:00.000Z''
   = (3, Inr \<lparr>metadata = \<lparr>source = SrcDataverse, extractedAt = ''2026-01-01T00:00:00.000Z'',
                             outputFormat = Json, recordCount = 3,
                             warnings = Some [''More records available in Dataverse. Showing first 3 results.''],
                             targetTool = None\<rparr>,
                records = [[(''id'', JNum 0)], [(''id'', JNum 1)], [(''id'', JNum 2)]],
                fieldHints = None\<rparr>)"
    by code_simp
  from dataverse_pagination [OF e] e show ?thesis by simp
qed

text \<open>
  C6 at the ceiling of 5 pages. With no requested top (so \<open>maxTop = 50\<close>) and a server
  that answers every request with one record and the link of a next page, fetching stops
  after 5 pages with 5 records and a continuation link still present; the link is not
  followed, and the result carries no warning: the test for the warning also asks that
  the number of records has reached \<open>maxTop\<close>, which is not why the loop stopped.
\<close>

theorem C6_page_ceiling_no_warning:
  "paginate pagedServer ''accounts'' (maxTopOf None) []
     (Some (''https://org.crm.dynamics.com/api/data/v9.2/accounts'' @ ''?'' @ ''%24top=50'')) 0
   = (5, Inr ([[(''id'', JNum 0)], [(''id'', JNum 1)], [(''id'', JNum 2)], [(''id'', JNum 3)],
               [(''id'', JNum 4)]], Some ''next''))
   \<and> truthyLink (Some ''next'')
   \<and> extractDataverse pagedServer ''accounts'' None
     ''https://org.crm.dynamics.com/api/data/v9.2/accounts'' ''%24top=50'' ''2026-01-01T00:00:00.000Z''
   = (5, Inr \<lparr>metadata = \<lparr>source = SrcDataverse, extractedAt = ''2026-01-01T00:00:00.000Z'',
                             outputFormat = Json, recordCount = 5, warnings = None,
                             targetTool = None\<rparr>,
                records = [[(''id'', JNum 0)], [(''id'', JNum 1)], [(''id'', JNum 2)],
                           [(''id'', JNum 3)], [(''id'', JNum 4)]],
                fieldHints = None\<rparr>)"
  by code_simp

section \<open>Characters and regular expressions\<close>

text \<open>
  The character classes of the source's regular expressions, on code units below 256:
  \<open>\s\<close> (white space and line terminators, the set \<open>trim\<close> strips too), \<open>\w\<close>, \<open>\d\<close>, the
  dot (anything but a line terminator), and bracketed sets.
\<close>

definition isSpace :: "char \<Rightarrow> bool" where
  "isSpace c = (c \<in> set [CHR 0x09, CHR 0x0A, CHR 0x0B, CHR 0x0C, CHR 0x0D, CHR 0x20, CHR 0xA0])"

definition isWordChar :: "char \<Rightarrow> bool" where
  "isWordChar c =
     (let n = (of_char c :: nat)
      in (48 \<le> n \<and> n \<le> 57) \<or> (65 \<le> n \<and> n \<le> 90) \<or> (97 \<le> n \<and> n \<le> 122) \<or> n = 95)"

datatype cls = Space | Word | Digit | AnyChar | Chars string | NotChars string | Union cls cls

fun inClass :: "cls \<Rightarrow> char \<Rightarrow> bool" where
  "inClass Space c = isSpace c"
| "inClass Word c = isWordChar c"
| "inClass Digit c = isDigit c"
| "inClass AnyChar c = (c \<noteq> CHR 0x0A \<and> c \<noteq> CHR 0x0D)"
| "inClass (Chars s) c = (c \<in> set s)"
| "inClass (NotChars s) c = (c \<notin> set s)"
| "inClass (Union a b) c = (inClass a c \<or> inClass b c)"

text \<open>
  Letters compare without case under the \<open>i\<close> flag; the patterns' own letters are ASCII,
  and no other code unit below 256 folds onto an ASCII letter.
\<close>

definition asciiLower :: "char \<Rightarrow> char" where
  "asciiLower c =
     (let n = (of_char c :: nat) in if 65 \<le> n \<and> n \<le> 90 then char_of (n + 32) else c)"

text \<open>
  The fragment of regular expressions the source uses: literals (\<open>LitI\<close> under the \<open>i\<close>
  flag), one character of a class, a class repeated greedily at least \<open>n\<close> times
  (\<open>c*\<close>, \<open>c+\<close>, \<open>c{3,}\<close>), sequence, alternative, the greedy option \<open>r?\<close>, numbered
  capturing groups and the end anchor \<open>$\<close>.
\<close>

datatype re =
    Lit string
  | LitI string
  | One cls
  | Many cls nat
  | Seq re re
  | Alt re re
  | Opt re
  | Group nat re
  | Eos

type_synonym caps = "(nat \<times> string) list"

text \<open>
  Backtracking matching at the start of the input, with a continuation for what follows:
  the first alternative, the option taken, and the longest repetition are tried first.
  A group records the text it matched; a group that took no part has no entry.
\<close>

primrec tryLongest ::
  "nat \<Rightarrow> nat \<Rightarrow> string \<Rightarrow> caps \<Rightarrow> (string \<Rightarrow> caps \<Rightarrow> 'r option) \<Rightarrow> 'r option" where
  "tryLongest 0 n inp cs k = (if n = 0 then k inp cs else None)"
| "tryLongest (Suc j) n inp cs k =
     (if Suc j < n then None
      else (case k (drop (Suc j) inp) cs of
              Some r \<Rightarrow> Some r
            | None \<Rightarrow> tryLongest j n inp cs k))"

primrec reMatch ::
  "re \<Rightarrow> string \<Rightarrow> caps \<Rightarrow> (string \<Rightarrow> caps \<Rightarrow> 'r option) \<Rightarrow> 'r option" where
  "reMatch (Lit s) = (\<lambda>inp cs k. if prefix s inp then k (drop (length s) inp) cs else None)"
| "reMatch (LitI s) = (\<lambda>inp cs k.
     if length s \<le> length inp \<and> map asciiLower (take (length s) inp) = map asciiLower s
     then k (drop (length s) inp) cs else None)"
| "reMatch (One c) = (\<lambda>inp cs k.
     (case inp of [] \<Rightarrow> None | x # xs \<Rightarrow> if inClass c x then k xs cs else None))"
| "reMatch (Many c n) = (\<lambda>inp cs k. tryLongest (length (takeWhile (inClass c) inp)) n inp cs k)"
| "reMatch (Seq a b) = (\<lambda>inp cs k. reMatch a inp cs (\<lambda>i c. reMatch b i c k))"
| "reMatch (Alt a b) = (\<lambda>inp cs k.
     (case reMatch a inp cs k of Some r \<Rightarrow> Some r | None \<Rightarrow> reMatch b inp cs k))"
| "reMatch (Opt a) = (\<lambda>inp cs k.
     (case reMatch a inp cs k of Some r \<Rightarrow> Some r | None \<Rightarrow> k inp cs))"
| "reMatch (Group g a) = (\<lambda>inp cs k.
     reMatch a inp cs (\<lambda>i c. k i ((g, take (length inp - length i) inp) # c)))"
| "reMatch Eos = (\<lambda>inp cs k. if inp = [] then k inp cs else None)"

text \<open>The match of a pattern at the start of \<open>s\<close>: the matched text and the groups.\<close>

definition reExec :: "re \<Rightarrow> string \<Rightarrow> (string \<times> caps) option" where
  "reExec r s = reMatch r s [] (\<lambda>rest cs. Some (take (length s - length rest) s, cs))"

text \<open>The text of group \<open>g\<close>, \<open>None\<close> for a group that took no part (\<open>undefined\<close>).\<close>

definition capture :: "caps \<Rightarrow> nat \<Rightarrow> string option" where
  "capture cs g = map_of cs g"

text \<open>
  \<open>s.replace(/r/g, ...)\<close>: the leftmost match is replaced and the scan goes on behind it;
  after an empty match the next character is copied.
\<close>

function replaceAll :: "re \<Rightarrow> (string \<Rightarrow> caps \<Rightarrow> string) \<Rightarrow> string \<Rightarrow> string" where
  "replaceAll r f [] = (case reExec r [] of Some (m, cs) \<Rightarrow> f m cs | None \<Rightarrow> [])"
| "replaceAll r f (c # s) =
     (case reExec r (c # s) of
        None \<Rightarrow> c # replaceAll r f s
      | Some (m, cs) \<Rightarrow>
          (if m = [] then f m cs @ c # replaceAll r f s
           else f m cs @ replaceAll r f (drop (length m - 1) s)))"
  by pat_completeness auto
termination
  by (relation "measure (\<lambda>(r, f, s). length s)") auto

text \<open>\<open>s.trim()\<close>.\<close>

definition trim :: "string \<Rightarrow> string" where
  "trim s = rev (dropWhile isSpace (rev (dropWhile isSpace s)))"

section \<open>Regular expressions: what a match is\<close>

text \<open>The texts a pattern can match, and that the matcher only returns such texts.\<close>

primrec lang :: "re \<Rightarrow> string set" where
  "lang (Lit s) = {s}"
| "lang (LitI s) = {w. map asciiLower w = map asciiLower s}"
| "lang (One c) = {w. \<exists>x. w = [x] \<and> inClass c x}"
| "lang (Many c n) = {w. n \<le> length w \<and> list_all (inClass c) w}"
| "lang (Seq a b) = {w. \<exists>u v. w = u @ v \<and> u \<in> lang a \<and> v \<in> lang b}"
| "lang (Alt a b) = lang a \<union> lang b"
| "lang (Opt a) = insert [] (lang a)"
| "lang (Group g a) = lang a"
| "lang Eos = {[]}"

lemma tryLongest_sound:
  "tryLongest J n inp cs k = Some r \<Longrightarrow> \<exists>j. n \<le> j \<and> j \<le> J \<and> k (drop j inp) cs = Some r"
proof (induction J)
  case 0
  then show ?case by (auto split: if_splits)
next
  case (Suc J)
  show ?case
  proof (cases "k (drop (Suc J) inp) cs")
    case None
    with Suc.prems have "tryLongest J n inp cs k = Some r" and "n \<le> Suc J"
      by (auto split: if_splits)
    with Suc.IH show ?thesis by (meson le_Suc_eq)
  next
    case (Some a)
    with Suc.prems have "n \<le> Suc J" and "k (drop (Suc J) inp) cs = Some r"
      by (auto split: if_splits)
    then show ?thesis by blast
  qed
qed

lemma reMatch_sound:
  "reMatch r inp cs k = Some res \<Longrightarrow>
   \<exists>m rest cs'. inp = m @ rest \<and> m \<in> lang r \<and> k rest cs' = Some res"
proof (induction r arbitrary: inp cs k res)
  case (Lit s)
  then have "prefix s inp" and "k (drop (length s) inp) cs = Some res"
    by (auto split: if_splits)
  then show ?case by (auto simp: prefix_def)
next
  case (LitI s)
  then have a: "length s \<le> length inp" "map asciiLower (take (length s) inp) = map asciiLower s"
    and b: "k (drop (length s) inp) cs = Some res"
    by (auto split: if_splits)
  have "inp = take (length s) inp @ drop (length s) inp" by simp
  with a b show ?case unfolding lang.simps by blast
next
  case (One c)
  then obtain x xs where "inp = x # xs" "inClass c x" "k xs cs = Some res"
    by (auto split: list.splits if_splits)
  then have "inp = [x] @ xs \<and> [x] \<in> lang (One c) \<and> k xs cs = Some res" by simp
  then show ?case by blast
next
  case (Many c n)
  then have "tryLongest (length (takeWhile (inClass c) inp)) n inp cs k = Some res" by simp
  from tryLongest_sound [OF this] obtain j where
    j: "n \<le> j" "j \<le> length (takeWhile (inClass c) inp)" "k (drop j inp) cs = Some res"
    by blast
  have "take j inp = take j (takeWhile (inClass c) inp)"
    using j(2) by (metis append_eq_conv_conj takeWhile_dropWhile_id take_append take_all_iff
        diff_is_0_eq' take_0 append_Nil2)
  then have "list_all (inClass c) (take j inp)"
    by (metis in_set_takeD list_all_iff set_takeWhileD)
  moreover have "length (take j inp) = j"
    using j(2) length_takeWhile_le [of "inClass c" inp] by simp
  ultimately have "take j inp \<in> lang (Many c n)" using j(1) by simp
  moreover have "inp = take j inp @ drop j inp" by simp
  ultimately show ?case using j(3) by blast
next
  case (Seq a b)
  then have "reMatch a inp cs (\<lambda>i c. reMatch b i c k) = Some res" by simp
  from Seq.IH(1) [OF this] obtain m1 rest1 cs1 where
    1: "inp = m1 @ rest1" "m1 \<in> lang a" "reMatch b rest1 cs1 k = Some res" by blast
  from Seq.IH(2) [OF 1(3)] obtain m2 rest2 cs2 where
    2: "rest1 = m2 @ rest2" "m2 \<in> lang b" "k rest2 cs2 = Some res" by blast
  from 1 2 have "inp = (m1 @ m2) @ rest2 \<and> m1 @ m2 \<in> lang (Seq a b)" by auto
  with 2(3) show ?case by blast
next
  case (Alt a b)
  then show ?case by (fastforce split: option.splits)
next
  case (Opt a)
  show ?case
  proof (cases "reMatch a inp cs k")
    case None
    with Opt.prems have "k inp cs = Some res" by simp
    then show ?thesis by (metis append_Nil insertI1 lang.simps(7))
  next
    case (Some x)
    with Opt.prems have "reMatch a inp cs k = Some res" by simp
    from Opt.IH [OF this] show ?thesis by auto
  qed
next
  case (Group g a)
  then have "reMatch a inp cs (\<lambda>i c. k i ((g, take (length inp - length i) inp) # c)) = Some res"
    by simp
  from Group.IH [OF this] show ?case by auto
next
  case Eos
  then show ?case by (auto split: if_splits)
qed

lemma reExec_sound:
  assumes "reExec r t = Some (m, cs)"
  shows "m \<in> lang r \<and> (\<exists>rest. t = m @ rest)"
proof -
  from reMatch_sound [OF assms [unfolded reExec_def]]
  obtain m' rest cs' where "t = m' @ rest" "m' \<in> lang r"
    "Some (take (length t - length rest) t, cs') = Some (m, cs)" by blast
  then show ?thesis by auto
qed

lemma replaceAll_length:
  "(\<And>t m cs. reExec r t = Some (m, cs) \<Longrightarrow> length (f m cs) \<le> length m)
   \<Longrightarrow> length (replaceAll r f s) \<le> length s"
proof (induction r f s rule: replaceAll.induct)
  case (1 r f)
  show ?case
  proof (cases "reExec r []")
    case None
    then show ?thesis by simp
  next
    case (Some a)
    obtain m cs where a: "a = (m, cs)" by (cases a)
    with Some reExec_sound [of r "[]" m cs] have "m = []" by simp
    with Some a "1.prems" [of "[]" m cs] show ?thesis by simp
  qed
next
  case (2 r f c s)
  show ?case
  proof (cases "reExec r (c # s)")
    case None
    have "length (replaceAll r f s) \<le> length s"
      by (rule "2.IH"(1) [OF None]) (rule "2.prems")
    with None show ?thesis by simp
  next
    case (Some a)
    obtain m cs where a: "a = (m, cs)" by (cases a)
    from Some a reExec_sound [of r "c # s" m cs] obtain rest where r: "c # s = m @ rest" by auto
    from "2.prems" [of "c # s" m cs] Some a have f: "length (f m cs) \<le> length m" by simp
    show ?thesis
    proof (cases "m = []")
      case True
      have "length (replaceAll r f s) \<le> length s"
        by (rule "2.IH"(2) [OF Some [unfolded a] refl True]) (rule "2.prems")
      with True Some a f show ?thesis by simp
    next
      case False
      have ih: "length (replaceAll r f (drop (length m - 1) s)) \<le> length (drop (length m - 1) s)"
        by (rule "2.IH"(3) [OF Some [unfolded a] refl False]) (rule "2.prems")
      from r False have "length m \<le> Suc (length s)"
        by (metis length_Cons length_append le_add1)
      with False Some a f ih show ?thesis
        by (auto simp: neq_Nil_conv)
    qed
  qed
qed

text \<open>A pattern matches somewhere in a text.\<close>

fun hasMatch :: "re \<Rightarrow> string \<Rightarrow> bool" where
  "hasMatch r [] = (reExec r [] \<noteq> None)"
| "hasMatch r (c # s) = (reExec r (c # s) \<noteq> None \<or> hasMatch r s)"

subsection \<open>Replacements that change nothing\<close>

lemma replaceAll_fixed:
  "(\<And>t m cs. suffix t s \<Longrightarrow> reExec r t = Some (m, cs) \<Longrightarrow> f m cs = m \<and> m \<noteq> [])
   \<Longrightarrow> replaceAll r f s = s"
proof (induction r f s rule: replaceAll.induct)
  case (1 r f)
  show ?case
  proof (cases "reExec r []")
    case None
    then show ?thesis by simp
  next
    case (Some a)
    obtain m cs where a: "a = (m, cs)" by (cases a)
    from Some a reExec_sound [of r "[]" m cs] have "m = []" by simp
    with Some a "1.prems" [of "[]" m cs] show ?thesis by simp
  qed
next
  case (2 r f c s)
  have sfx: "\<And>t. suffix t s \<Longrightarrow> suffix t (c # s)" by (simp add: suffix_Cons)
  show ?case
  proof (cases "reExec r (c # s)")
    case None
    have "replaceAll r f s = s"
      by (rule "2.IH"(1) [OF None]) (use "2.prems" sfx in blast)
    with None show ?thesis by simp
  next
    case (Some a)
    obtain m cs where a: "a = (m, cs)" by (cases a)
    from Some a "2.prems" [of "c # s" m cs] have f: "f m cs = m" and ne: "m \<noteq> []" by simp_all
    from Some a reExec_sound [of r "c # s" m cs] obtain rest where r: "c # s = m @ rest" by auto
    with ne have d: "drop (length m - 1) s = rest"
      by (cases m) auto
    have "suffix rest s" using r ne by (cases m) (auto simp: suffix_def)
    then have sfx': "\<And>t. suffix t (drop (length m - 1) s) \<Longrightarrow> suffix t (c # s)"
      unfolding d using sfx suffix_order.trans by blast
    have ih: "replaceAll r f (drop (length m - 1) s) = drop (length m - 1) s"
      by (rule "2.IH"(3) [OF Some [unfolded a] refl ne]) (use "2.prems" sfx' in blast)
    have "replaceAll r f (c # s) = f m cs @ replaceAll r f (drop (length m - 1) s)"
      using Some a ne by simp
    also have "\<dots> = m @ rest" using f ih d by simp
    also have "\<dots> = c # s" using r by simp
    finally show ?thesis .
  qed
qed

lemma hasMatch_suffix: "suffix t s \<Longrightarrow> reExec r t \<noteq> None \<Longrightarrow> hasMatch r s"
  by (induction s) (auto simp: suffix_Cons)

lemma replaceAll_no_match: "\<not> hasMatch r s \<Longrightarrow> replaceAll r f s = s"
  by (rule replaceAll_fixed) (use hasMatch_suffix in fastforce)

lemma hasMatch_mono:
  "(\<And>t. reExec r t \<noteq> None \<Longrightarrow> reExec r' t \<noteq> None) \<Longrightarrow> hasMatch r s \<Longrightarrow> hasMatch r' s"
  by (induction s) auto

lemma hasMatch_Lit: "hasMatch (Lit e) s = str_includes s e"
  by (induction s) (auto simp: reExec_def)

section \<open>Path resolver\<close>

text \<open>\<open>parseInt(s, 10)\<close>: leading white space, a sign, then the digits; \<open>None\<close> is NaN.\<close>

definition parseInt10 :: "string \<Rightarrow> int option" where
  "parseInt10 s =
     (let s1 = dropWhile isSpace s;
          neg = (take 1 s1 = ''-'');
          s2 = (if take 1 s1 = ''-'' \<or> take 1 s1 = ''+'' then drop 1 s1 else s1);
          ds = takeWhile isDigit s2
      in if ds = [] then None
         else Some (if neg then - int (digitsValue ds) else int (digitsValue ds)))"

text \<open>\<open>xs[index]\<close> for a number: \<open>undefined\<close> outside the array.\<close>

definition arrayGet :: "jsval list \<Rightarrow> int \<Rightarrow> jsval" where
  "arrayGet xs index = (if 0 \<le> index \<and> index < int (length xs) then xs ! nat index else JUndefined)"

definition bracketIndexRe :: re where
  "bracketIndexRe = Seq (Lit ''['') (Seq (Group 1 (Many Digit 1)) (Lit '']''))"

definition bracketStarRe :: re where
  "bracketStarRe = Lit ''[*]''"

definition normalizePath :: "string \<Rightarrow> string" where
  "normalizePath path =
     replaceAll bracketStarRe (\<lambda>m cs. ''.*'')
       (replaceAll bracketIndexRe
          (\<lambda>m cs. ''.'' @ (case capture cs 1 of Some g \<Rightarrow> g | None \<Rightarrow> [])) path)"

definition parsePath :: "string \<Rightarrow> string list" where
  "parsePath path = splitOn (CHR ''.'') (normalizePath path)"

lemma bracketIndex_shrinks:
  assumes "reExec bracketIndexRe t = Some (m, cs)"
  shows "length (''.'' @ (case capture cs 1 of Some g \<Rightarrow> g | None \<Rightarrow> [])) \<le> length m"
  using assms
  apply (auto simp: reExec_def bracketIndexRe_def capture_def prefix_def split: if_splits dest!: tryLongest_sound)
  subgoal premises p for zs j zsa
  proof -
    from p(4) have "length (drop j zs) = Suc (length zsa)" by simp
    then show ?thesis by simp
  qed
  done

lemma normalizePath_length: "length (normalizePath path) \<le> length path"
proof -
  have 1: "\<And>s. length (replaceAll bracketStarRe (\<lambda>m cs. ''.*'') s) \<le> length s"
    by (rule replaceAll_length)
       (auto simp: reExec_def bracketStarRe_def prefix_def split: if_splits)
  have 2: "length (replaceAll bracketIndexRe
          (\<lambda>m cs. ''.'' @ (case capture cs 1 of Some g \<Rightarrow> g | None \<Rightarrow> [])) path) \<le> length path"
    by (rule replaceAll_length) (rule bracketIndex_shrinks)
  show ?thesis unfolding normalizePath_def using 1 2 le_trans by blast
qed

lemma join_Cons_hd: "join sep ((c # a) # list) = c # join sep (a # list)"
  by (cases list) simp_all

lemma join_splitOn: "join [d] (splitOn d s) = s"
proof (induction s)
  case Nil
  then show ?case by simp
next
  case (Cons c s)
  then show ?case
    by (cases "splitOn d s") (auto split: list.splits simp: join_Cons_hd)
qed

lemma splitOn_not_Nil: "splitOn d s \<noteq> []"
  by (induction s) (auto split: list.splits)

lemma join_Cons_length:
  "rest \<noteq> [] \<Longrightarrow> length (join sep (seg # rest)) = length seg + length sep + length (join sep rest)"
  by (cases rest) simp_all

text \<open>
  \<open>resolveJsonPath(obj, path)\<close>. \<open>resolve_loop current segments\<close> is the \<open>for\<close> loop from
  the segment it stands at; under a wildcard the rest of the path is joined again and
  resolved against every element.
\<close>

function resolveJsonPath :: "jsval \<Rightarrow> string \<Rightarrow> jsval"
  and resolve_loop :: "jsval \<Rightarrow> string list \<Rightarrow> jsval" where
  "resolveJsonPath obj path = resolve_loop obj (parsePath path)"
| "resolve_loop current [] = current"
| "resolve_loop current (segment # rest) =
     (case current of
        JNull \<Rightarrow> JUndefined
      | JUndefined \<Rightarrow> JUndefined
      | JArr xs \<Rightarrow>
          (if segment = ''*'' then
             (let remaining = join ''.'' rest in
              if remaining \<noteq> [] then JArr (map (\<lambda>item. resolveJsonPath item remaining) xs)
              else current)
           else
             (case parseInt10 segment of
                None \<Rightarrow> JUndefined
              | Some index \<Rightarrow> resolve_loop (arrayGet xs index) rest))
      | JObj kvs \<Rightarrow> resolve_loop (getProp kvs segment) rest
      | JBool b \<Rightarrow> JUndefined
      | JNum n \<Rightarrow> JUndefined
      | JStr s \<Rightarrow> JUndefined)"
  by pat_completeness auto
termination
proof (relation "measure (\<lambda>x. case x of
          Inl (obj, path) \<Rightarrow> 2 * length path + 2
        | Inr (current, segs) \<Rightarrow> (if segs = [] then 0 else 2 * length (join ''.'' segs) + 1))",
      goal_cases)
  case 1
  then show ?case by simp
next
  case (2 obj path)
  have "length (join ''.'' (parsePath path)) \<le> length path"
    unfolding parsePath_def using join_splitOn [of "CHR ''.''" "normalizePath path"]
      normalizePath_length [of path] by simp
  then show ?case by simp
next
  case (3 current segment rest xs remaining item)
  then have "rest \<noteq> []" by auto
  with 3 show ?case by (simp add: join_Cons_length)
next
  case (4 current segment rest xs index)
  then show ?case by (cases rest) (simp_all add: join_Cons_length)
next
  case (5 current segment rest kvs)
  then show ?case by (cases rest) (simp_all add: join_Cons_length)
qed

section \<open>Object flattener\<close>

text \<open>
  \<open>flattenObject(obj, prefix = "")\<close>; \<open>flattenObject_loop\<close> is the loop over
  \<open>Object.entries(obj)\<close> with the result built so far.
\<close>

fun flattenObject :: "jsrecord \<Rightarrow> string \<Rightarrow> jsrecord"
  and flattenObject_loop :: "jsrecord \<Rightarrow> string \<Rightarrow> jsrecord \<Rightarrow> jsrecord" where
  "flattenObject obj pre = flattenObject_loop obj pre []"
| "flattenObject_loop [] pre result = result"
| "flattenObject_loop ((key, val) # entries) pre result =
     (let fullKey = (if pre \<noteq> [] then pre @ ''.'' @ key else key) in
      case val of
        JObj kvs \<Rightarrow>
          flattenObject_loop entries pre (Object_assign result (flattenObject kvs fullKey))
      | _ \<Rightarrow> flattenObject_loop entries pre (setProp result fullKey val))"

text \<open>
  The key under which \<open>flattenObject\<close> stores the leaf reached by the keys \<open>p\<close>, starting
  from the prefix \<open>pre\<close>: at every level the prefix is joined with a dot only when it is
  not empty. The leaves of an object come each with the list of keys that leads to it.
\<close>

fun flatKey :: "string \<Rightarrow> string list \<Rightarrow> string" where
  "flatKey pre [] = pre"
| "flatKey pre (k # p) = flatKey (if pre \<noteq> [] then pre @ ''.'' @ k else k) p"

fun leaves :: "jsrecord \<Rightarrow> (string list \<times> jsval) list"
  and leavesVal :: "string \<Rightarrow> jsval \<Rightarrow> (string list \<times> jsval) list" where
  "leaves [] = []"
| "leaves ((k, v) # kvs) = leavesVal k v @ leaves kvs"
| "leavesVal k (JObj kvs) = map (\<lambda>(p, x). (k # p, x)) (leaves kvs)"
| "leavesVal k JUndefined = [([k], JUndefined)]"
| "leavesVal k JNull = [([k], JNull)]"
| "leavesVal k (JBool b) = [([k], JBool b)]"
| "leavesVal k (JNum n) = [([k], JNum n)]"
| "leavesVal k (JStr s) = [([k], JStr s)]"
| "leavesVal k (JArr xs) = [([k], JArr xs)]"

definition keyed :: "string \<Rightarrow> (string list \<times> jsval) list \<Rightarrow> jsrecord" where
  "keyed pre lvs = map (\<lambda>(p, x). (flatKey pre p, x)) lvs"

text \<open>The writes that create a property: all but those to \<open>__proto__\<close>.\<close>

definition stored :: "jsrecord \<Rightarrow> jsrecord" where
  "stored kvs = filter (\<lambda>(k, v). k \<noteq> ''__proto__'') kvs"

text \<open>
  Keys the path syntax reads as one segment: free of the dot and of the bracketed
  indices \<open>[digits]\<close> and \<open>[*]\<close>, which \<open>resolveJsonPath\<close> rewrites. A list of keys is
  carried when all its keys are such and, if it has more than one key, the first is not
  empty: below an empty key at top level \<open>flattenObject\<close> starts again with the empty
  prefix.
\<close>

definition pathSafe :: "string \<Rightarrow> bool" where
  "pathSafe k = (CHR ''.'' \<notin> set k \<and> \<not> hasMatch bracketIndexRe k \<and> \<not> hasMatch bracketStarRe k)"

definition carried :: "string list \<Rightarrow> bool" where
  "carried p = (list_all pathSafe p \<and> (length p > 1 \<longrightarrow> hd p \<noteq> []))"

subsection \<open>Property writes\<close>

lemma map_of_insertIndexed:
  "k \<notin> fst ` set kvs \<Longrightarrow> map_of (insertIndexed kvs k v) = (map_of kvs)(k \<mapsto> v)"
  by (induction kvs k v rule: insertIndexed.induct) (auto simp: fun_upd_twist)

lemma map_of_update_all:
  "map_of (map (\<lambda>(k', v'). if k' = k then (k', v) else (k', v')) kvs) x
     = (if x = k \<and> k \<in> fst ` set kvs then Some v else map_of kvs x)"
proof (induction kvs)
  case Nil
  then show ?case by simp
next
  case (Cons a kvs)
  obtain k' v' where a: "a = (k', v')" by (cases a)
  show ?case
  proof (cases "k' = k")
    case True
    with Cons a show ?thesis by simp
  next
    case False
    with Cons a show ?thesis by (cases "x = k") simp_all
  qed
qed

lemma map_of_setProp:
  assumes "k \<noteq> ''__proto__''"
  shows "map_of (setProp kvs k v) = (map_of kvs)(k \<mapsto> v)"
proof (rule ext)
  fix x
  show "map_of (setProp kvs k v) x = ((map_of kvs)(k \<mapsto> v)) x"
  proof (cases "k \<in> fst ` set kvs")
    case True
    then show ?thesis
      by (simp add: setProp_def map_of_update_all)
  next
    case False
    then have "map_of kvs k = None" by (simp add: map_of_eq_None_iff)
    with False assms show ?thesis
      by (auto simp: setProp_def map_of_insertIndexed map_add_def split: option.splits)
  qed
qed

lemma setProp_proto: "''__proto__'' \<notin> fst ` set kvs \<Longrightarrow> setProp kvs ''__proto__'' v = kvs"
  by (simp add: setProp_def)

lemma keys_insertIndexed: "fst ` set (insertIndexed kvs k v) = insert k (fst ` set kvs)"
  by (induction kvs k v rule: insertIndexed.induct) auto

lemma keys_update_all:
  "map fst (map (\<lambda>(k', v'). if k' = k then (k', v) else (k', v')) kvs) = map fst kvs"
  by (induction kvs) (simp_all add: case_prod_beta)

lemma keys_setProp:
  assumes "k \<noteq> ''__proto__''"
  shows "fst ` set (setProp kvs k v) = insert k (fst ` set kvs)"
proof (cases "k \<in> set (map fst kvs)")
  case True
  have "fst ` set (map (\<lambda>(k', v'). if k' = k then (k', v) else (k', v')) kvs) = set (map fst kvs)"
    using keys_update_all [of k v kvs] by (metis set_map)
  with True show ?thesis by (auto simp: setProp_def)
next
  case False
  with assms show ?thesis by (simp add: setProp_def keys_insertIndexed)
qed

lemma stored_keys: "''__proto__'' \<notin> fst ` set (stored kvs)"
  by (auto simp: stored_def)

lemma stored_append: "stored (xs @ ys) = stored xs @ stored ys"
  by (simp add: stored_def)

lemma stored_id: "''__proto__'' \<notin> fst ` set kvs \<Longrightarrow> stored kvs = kvs"
  unfolding stored_def by (rule filter_True) force

lemma Object_assign_stored:
  "''__proto__'' \<notin> fst ` set target \<Longrightarrow> Object_assign target src = Object_assign target (stored src)"
  unfolding Object_assign_def
proof (induction src arbitrary: target)
  case Nil
  then show ?case by (simp add: stored_def)
next
  case (Cons a src)
  obtain k v where a: "a = (k, v)" by (cases a)
  show ?case
  proof (cases "k = ''__proto__''")
    case True
    with Cons.prems have "setProp target k v = target" by (simp add: setProp_proto)
    with Cons a True show ?thesis by (simp add: stored_def)
  next
    case False
    with Cons.prems have "''__proto__'' \<notin> fst ` set (setProp target k v)"
      by (simp add: keys_setProp)
    from Cons.IH [OF this] a False show ?thesis by (simp add: stored_def)
  qed
qed

lemma map_of_Object_assign_plain:
  "''__proto__'' \<notin> fst ` set src \<Longrightarrow>
   map_of (Object_assign target src) = map_of target ++ map_of (rev src)"
  unfolding Object_assign_def
proof (induction src arbitrary: target)
  case Nil
  then show ?case by simp
next
  case (Cons a src)
  obtain k v where a: "a = (k, v)" by (cases a)
  from Cons.prems a have k: "k \<noteq> ''__proto__''" and rest: "''__proto__'' \<notin> fst ` set src"
    by auto
  have "fold (\<lambda>(k, v) t. setProp t k v) (a # src) target
      = fold (\<lambda>(k, v) t. setProp t k v) src (setProp target k v)"
    using a by simp
  then have "map_of (fold (\<lambda>(k, v) t. setProp t k v) (a # src) target)
      = map_of (setProp target k v) ++ map_of (rev src)"
    by (simp only: Cons.IH [OF rest])
  also have "map_of (setProp target k v) = (map_of target)(k \<mapsto> v)"
    using k by (rule map_of_setProp)
  also have "(map_of target)(k \<mapsto> v) = map_of target ++ [k \<mapsto> v]"
    by simp
  also have "(map_of target ++ [k \<mapsto> v]) ++ map_of (rev src)
      = map_of target ++ ([k \<mapsto> v] ++ map_of (rev src))"
    by (rule map_add_assoc [symmetric])
  also have "[k \<mapsto> v] ++ map_of (rev src) = map_of (rev (a # src))"
    using a by simp
  finally show ?case .
qed

lemma keys_Object_assign_plain:
  "''__proto__'' \<notin> fst ` set src \<Longrightarrow>
   fst ` set (Object_assign target src) = fst ` set target \<union> fst ` set src"
  unfolding Object_assign_def
proof (induction src arbitrary: target)
  case Nil
  then show ?case by simp
next
  case (Cons a src)
  obtain k v where a: "a = (k, v)" by (cases a)
  from Cons.prems a have k: "k \<noteq> ''__proto__''" and rest: "''__proto__'' \<notin> fst ` set src"
    by auto
  show ?case using Cons.IH [OF rest, of "setProp target k v"] a k
    by (simp add: keys_setProp)
qed

lemma map_of_Object_assign:
  assumes "''__proto__'' \<notin> fst ` set target"
  shows "map_of (Object_assign target src) = map_of target ++ map_of (rev (stored src))"
proof -
  have "Object_assign target src = Object_assign target (stored src)"
    using assms by (rule Object_assign_stored)
  moreover have "map_of (Object_assign target (stored src))
      = map_of target ++ map_of (rev (stored src))"
    using stored_keys by (rule map_of_Object_assign_plain)
  ultimately show ?thesis by (simp only:)
qed

lemma keys_Object_assign:
  assumes "''__proto__'' \<notin> fst ` set target"
  shows "fst ` set (Object_assign target src) = fst ` set target \<union> fst ` set (stored src)"
proof -
  have "Object_assign target src = Object_assign target (stored src)"
    using assms by (rule Object_assign_stored)
  moreover have "fst ` set (Object_assign target (stored src))
      = fst ` set target \<union> fst ` set (stored src)"
    using stored_keys by (rule keys_Object_assign_plain)
  ultimately show ?thesis by (simp only:)
qed

lemma distinct_insertIndexed:
  "k \<notin> fst ` set kvs \<Longrightarrow> distinct (map fst kvs) \<Longrightarrow> distinct (map fst (insertIndexed kvs k v))"
  by (induction kvs k v rule: insertIndexed.induct) (auto simp: keys_insertIndexed)

lemma distinct_setProp:
  assumes "distinct (map fst kvs)"
  shows "distinct (map fst (setProp kvs k v))"
proof (cases "k \<in> set (map fst kvs)")
  case True
  then have "setProp kvs k v = map (\<lambda>(k', v'). if k' = k then (k', v) else (k', v')) kvs"
    by (simp add: setProp_def)
  with assms show ?thesis by (simp only: keys_update_all)
next
  case False
  with assms show ?thesis
    unfolding setProp_def by (simp add: distinct_insertIndexed)
qed

lemma distinct_Object_assign:
  "distinct (map fst target) \<Longrightarrow> distinct (map fst (Object_assign target src))"
  unfolding Object_assign_def
  by (induction src arbitrary: target) (auto simp: distinct_setProp)

lemma distinct_flatten:
  "distinct (map fst (flattenObject obj pre))"
  "distinct (map fst result) \<Longrightarrow> distinct (map fst (flattenObject_loop entries pre result))"
proof (induction obj pre and entries pre result rule: flattenObject_flattenObject_loop.induct)
  case (1 obj pre)
  then show ?case by simp
next
  case (2 pre result)
  then show ?case by simp
next
  case (3 key val entries pre result)
  show ?case
  proof (cases val)
    case (JObj kvs)
    with 3 show ?thesis by (simp add: distinct_Object_assign)
  qed (use 3 in \<open>simp_all add: distinct_setProp\<close>)
qed

lemma map_of_rev_distinct: "distinct (map fst xs) \<Longrightarrow> map_of (rev xs) = map_of xs"
  by (rule ext) (metis distinct_rev map_of_inject_set rev_map set_rev)

subsection \<open>The flattened object, key by key\<close>

lemma keyed_leavesVal_obj:
  "keyed pre (leavesVal key (JObj kvs)) = keyed (if pre \<noteq> [] then pre @ ''.'' @ key else key) (leaves kvs)"
  by (simp add: keyed_def case_prod_beta comp_def)

lemma leavesVal_leaf: "(\<And>kvs. val \<noteq> JObj kvs) \<Longrightarrow> leavesVal key val = [([key], val)]"
  by (cases val) (simp_all, blast)

lemma flattenObject_loop_leaf:
  "(\<And>kvs. val \<noteq> JObj kvs) \<Longrightarrow>
   flattenObject_loop ((key, val) # entries) pre result
     = flattenObject_loop entries pre
         (setProp result (if pre \<noteq> [] then pre @ ''.'' @ key else key) val)"
  by (cases val) (simp_all, blast)

lemma flatten_step_leaf:
  assumes "''__proto__'' \<notin> fst ` set result"
  shows "map_of (setProp result fk val) = map_of result ++ map_of (rev (stored [(fk, val)]))
       \<and> fst ` set (setProp result fk val) = fst ` set result \<union> fst ` set (stored [(fk, val)])"
proof (cases "fk = ''__proto__''")
  case True
  with assms show ?thesis by (simp add: setProp_proto stored_def)
next
  case False
  then show ?thesis by (simp add: map_of_setProp keys_setProp stored_def)
qed

lemma flatten_lookup:
  "map_of (flattenObject obj pre) = map_of (rev (stored (keyed pre (leaves obj))))
     \<and> fst ` set (flattenObject obj pre) = fst ` set (stored (keyed pre (leaves obj)))"
  "''__proto__'' \<notin> fst ` set result \<Longrightarrow>
     map_of (flattenObject_loop entries pre result)
       = map_of result ++ map_of (rev (stored (keyed pre (leaves entries))))
     \<and> fst ` set (flattenObject_loop entries pre result)
       = fst ` set result \<union> fst ` set (stored (keyed pre (leaves entries)))"
proof (induction obj pre and entries pre result rule: flattenObject_flattenObject_loop.induct)
  case (1 obj pre)
  then show ?case by simp
next
  case (2 pre result)
  then show ?case by (simp add: keyed_def stored_def)
next
  case (3 key val entries pre result)
  let ?fk = "if pre \<noteq> [] then pre @ ''.'' @ key else key"
  let ?here = "stored (keyed pre (leavesVal key val))"
  let ?rest = "stored (keyed pre (leaves entries))"
  have split: "stored (keyed pre (leaves ((key, val) # entries))) = ?here @ ?rest"
    by (simp add: keyed_def stored_def)
  have step: ?case
    if a: "map_of result' = map_of result ++ map_of (rev ?here)"
      and b: "fst ` set result' = fst ` set result \<union> fst ` set ?here"
      and c: "''__proto__'' \<notin> fst ` set result' \<Longrightarrow>
              map_of (flattenObject_loop entries pre result')
                = map_of result' ++ map_of (rev ?rest)
              \<and> fst ` set (flattenObject_loop entries pre result')
                = fst ` set result' \<union> fst ` set ?rest"
      and d: "flattenObject_loop ((key, val) # entries) pre result
                = flattenObject_loop entries pre result'"
    for result'
  proof -
    have "''__proto__'' \<notin> fst ` set result'"
      unfolding b using "3.prems" stored_keys [of "keyed pre (leavesVal key val)"] by blast
    from c [OF this]
    have c1: "map_of (flattenObject_loop entries pre result') = map_of result' ++ map_of (rev ?rest)"
      and c2: "fst ` set (flattenObject_loop entries pre result') = fst ` set result' \<union> fst ` set ?rest"
      by blast+
    have "map_of (flattenObject_loop ((key, val) # entries) pre result)
        = (map_of result ++ map_of (rev ?here)) ++ map_of (rev ?rest)"
      unfolding d c1 a ..
    also have "\<dots> = map_of result ++ map_of (rev (?here @ ?rest))"
      by (simp add: map_add_assoc)
    finally have m: "map_of (flattenObject_loop ((key, val) # entries) pre result)
        = map_of result ++ map_of (rev (stored (keyed pre (leaves ((key, val) # entries)))))"
      unfolding split .
    have "fst ` set (flattenObject_loop ((key, val) # entries) pre result)
        = fst ` set result \<union> fst ` set (?here @ ?rest)"
      unfolding d c2 b by (simp add: image_Un Un_assoc)
    then have "fst ` set (flattenObject_loop ((key, val) # entries) pre result)
        = fst ` set result \<union> fst ` set (stored (keyed pre (leaves ((key, val) # entries))))"
      unfolding split .
    with m show ?thesis by (rule conjI)
  qed
  have leaf: ?case
    if n: "\<And>kvs. val \<noteq> JObj kvs"
      and c: "''__proto__'' \<notin> fst ` set (setProp result ?fk val) \<Longrightarrow>
              map_of (flattenObject_loop entries pre (setProp result ?fk val))
                = map_of (setProp result ?fk val) ++ map_of (rev ?rest)
              \<and> fst ` set (flattenObject_loop entries pre (setProp result ?fk val))
                = fst ` set (setProp result ?fk val) \<union> fst ` set ?rest"
  proof -
    have h: "?here = stored [(?fk, val)]"
      using leavesVal_leaf [OF n, of key] by (simp add: keyed_def)
    from flatten_step_leaf [OF "3.prems", of ?fk val]
    have a: "map_of (setProp result ?fk val) = map_of result ++ map_of (rev ?here)"
      and b: "fst ` set (setProp result ?fk val) = fst ` set result \<union> fst ` set ?here"
      unfolding h by blast+
    from a b c flattenObject_loop_leaf [OF n] show ?thesis by (rule step)
  qed
  show ?case
  proof (cases val)
    case (JObj kvs)
    let ?flat = "flattenObject kvs ?fk"
    from "3.IH"(7) [OF refl JObj]
    have f1: "map_of ?flat = map_of (rev (stored (keyed ?fk (leaves kvs))))"
      and f2: "fst ` set ?flat = fst ` set (stored (keyed ?fk (leaves kvs)))"
      by blast+
    have kk: "stored (keyed ?fk (leaves kvs)) = ?here"
      unfolding JObj keyed_leavesVal_obj ..
    have np: "''__proto__'' \<notin> fst ` set ?flat"
      unfolding f2 by (rule stored_keys)
    let ?r = "Object_assign result ?flat"
    have "map_of ?r = map_of result ++ map_of (rev (stored ?flat))"
      using "3.prems" by (rule map_of_Object_assign)
    also have "stored ?flat = ?flat" using np by (rule stored_id)
    also have "map_of (rev ?flat) = map_of ?flat"
      by (rule map_of_rev_distinct) (rule distinct_flatten(1))
    also have "map_of ?flat = map_of (rev ?here)"
      unfolding f1 kk ..
    finally have a: "map_of ?r = map_of result ++ map_of (rev ?here)" .
    have "fst ` set ?r = fst ` set result \<union> fst ` set (stored ?flat)"
      using "3.prems" by (rule keys_Object_assign)
    also have "stored ?flat = ?flat" using np by (rule stored_id)
    also have "fst ` set ?flat = fst ` set ?here"
      unfolding f2 kk ..
    finally have b: "fst ` set ?r = fst ` set result \<union> fst ` set ?here" .
    have d: "flattenObject_loop ((key, val) # entries) pre result = flattenObject_loop entries pre ?r"
      using JObj by simp
    from a b "3.IH"(8) [OF refl JObj] d show ?thesis by (rule step)
  next
    case JUndefined
    then have "\<And>kvs. val \<noteq> JObj kvs" by simp
    then show ?thesis using "3.IH"(1) [OF refl JUndefined] by (rule leaf)
  next
    case JNull
    then have "\<And>kvs. val \<noteq> JObj kvs" by simp
    then show ?thesis using "3.IH"(2) [OF refl JNull] by (rule leaf)
  next
    case (JBool b)
    then have "\<And>kvs. val \<noteq> JObj kvs" by simp
    then show ?thesis using "3.IH"(3) [OF refl JBool] by (rule leaf)
  next
    case (JNum n)
    then have "\<And>kvs. val \<noteq> JObj kvs" by simp
    then show ?thesis using "3.IH"(4) [OF refl JNum] by (rule leaf)
  next
    case (JStr t)
    then have "\<And>kvs. val \<noteq> JObj kvs" by simp
    then show ?thesis using "3.IH"(5) [OF refl JStr] by (rule leaf)
  next
    case (JArr xs)
    then have "\<And>kvs. val \<noteq> JObj kvs" by simp
    then show ?thesis using "3.IH"(6) [OF refl JArr] by (rule leaf)
  qed
qed

subsection \<open>Leaves and the paths to them\<close>

lemma leaves_nonempty:
  "(p, x) \<in> set (leaves obj) \<Longrightarrow> p \<noteq> []"
  "(p, x) \<in> set (leavesVal k v) \<Longrightarrow> p \<noteq> []"
  by (induction obj and k v arbitrary: p x and p x rule: leaves_leavesVal.induct) auto

lemma leaves_heads:
  "(p, x) \<in> set (leaves obj) \<Longrightarrow> \<exists>k p'. p = k # p' \<and> k \<in> fst ` set obj"
  "(p, x) \<in> set (leavesVal k v) \<Longrightarrow> \<exists>p'. p = k # p'"
  apply (induction obj and k v arbitrary: p x and p x rule: leaves_leavesVal.induct)
  apply auto
  apply blast+
  done

lemma leaves_distinct:
  "wf_jsval (JObj obj) \<Longrightarrow> distinct (map fst (leaves obj))"
  "wf_jsval v \<Longrightarrow> distinct (map fst (leavesVal k v))"
proof (induction obj and k v rule: leaves_leavesVal.induct)
  case (2 k v kvs)
  then have d1: "distinct (map fst (leavesVal k v))" and d2: "distinct (map fst (leaves kvs))"
    and nk: "k \<notin> fst ` set kvs"
    by auto
  have "fst ` set (leavesVal k v) \<inter> fst ` set (leaves kvs) = {}"
  proof (rule ccontr)
    assume "fst ` set (leavesVal k v) \<inter> fst ` set (leaves kvs) \<noteq> {}"
    then obtain p x y where a: "(p, x) \<in> set (leavesVal k v)" and b: "(p, y) \<in> set (leaves kvs)"
      by auto
    from leaves_heads(2) [OF a] leaves_heads(1) [OF b] nk show False by auto
  qed
  with d1 d2 show ?case by simp
next
  case (3 k kvs)
  then have "distinct (map fst (leaves kvs))" by simp
  then have "distinct (map ((#) k) (map fst (leaves kvs)))"
    by (simp add: distinct_map inj_on_def)
  moreover have "map fst (leavesVal k (JObj kvs)) = map ((#) k) (map fst (leaves kvs))"
    by (simp add: case_prod_beta comp_def)
  ultimately show ?case by (simp only:)
qed simp_all

lemma resolve_leaves:
  "wf_jsval (JObj obj) \<Longrightarrow> (p, x) \<in> set (leaves obj) \<Longrightarrow> resolve_loop (JObj obj) p = x"
  "wf_jsval v \<Longrightarrow> (p, x) \<in> set (leavesVal k v) \<Longrightarrow> \<exists>p'. p = k # p' \<and> resolve_loop v p' = x"
proof (induction obj and k v arbitrary: p x and p x rule: leaves_leavesVal.induct)
  case 1
  then show ?case by simp
next
  case (2 k v kvs)
  from "2.prems"(1) have wv: "wf_jsval v" and wk: "wf_jsval (JObj kvs)" and nk: "k \<notin> fst ` set kvs"
    by auto
  from "2.prems"(2) consider "(p, x) \<in> set (leavesVal k v)" | "(p, x) \<in> set (leaves kvs)"
    by auto
  then show ?case
  proof cases
    case 1
    from "2.IH"(1) [OF wv 1] obtain p' where "p = k # p'" "resolve_loop v p' = x" by blast
    then show ?thesis by (simp add: getProp_def)
  next
    case 2
    from leaves_heads(1) [OF 2] obtain k' p' where p: "p = k' # p'" and k': "k' \<in> fst ` set kvs"
      by blast
    with nk have "k' \<noteq> k" by auto
    then have "getProp ((k, v) # kvs) k' = getProp kvs k'" by (simp add: getProp_def)
    with p "2.IH"(2) [OF wk 2] show ?thesis by simp
  qed
next
  case (3 k kvs)
  then show ?case by auto
qed auto

subsection \<open>Keys that parse back\<close>

lemma join_Cons: "rest \<noteq> [] \<Longrightarrow> join sep (k # rest) = k @ sep @ join sep rest"
  by (cases rest) simp_all

lemma flatKey_prefixed:
  "pre \<noteq> [] \<Longrightarrow> flatKey pre p = (if p = [] then pre else pre @ ''.'' @ join ''.'' p)"
proof (induction p arbitrary: pre)
  case Nil
  then show ?case by simp
next
  case (Cons k p)
  have "flatKey pre (k # p) = flatKey (pre @ ''.'' @ k) p" using Cons.prems by simp
  also have "\<dots> = (if p = [] then pre @ ''.'' @ k else (pre @ ''.'' @ k) @ ''.'' @ join ''.'' p)"
    by (rule Cons.IH) simp
  also have "\<dots> = pre @ ''.'' @ join ''.'' (k # p)"
    by (cases p) simp_all
  finally show ?case by simp
qed

lemma flatKey_carried:
  assumes "p \<noteq> []" and "length p > 1 \<longrightarrow> hd p \<noteq> []"
  shows "flatKey [] p = join ''.'' p"
proof -
  from assms(1) obtain k p' where p: "p = k # p'" by (cases p) auto
  show ?thesis
  proof (cases "p' = []")
    case True
    with p show ?thesis by simp
  next
    case False
    with assms(2) p have k: "k \<noteq> []" by simp
    have "flatKey [] p = flatKey k p'" unfolding p by simp
    also have "\<dots> = k @ ''.'' @ join ''.'' p'" using False flatKey_prefixed [OF k, of p'] by simp
    also have "\<dots> = join ''.'' p" unfolding p using False by (simp add: join_Cons)
    finally show ?thesis .
  qed
qed

lemma prefix_before:
  "prefix s (k @ c # rest) \<Longrightarrow> c \<notin> set s \<Longrightarrow> prefix s k"
  by (auto simp: prefix_append prefix_Cons)

lemma hasMatch_separated:
  assumes "\<And>k rest. reExec r (k @ c # rest) \<noteq> None \<Longrightarrow> reExec r k \<noteq> None"
  shows "hasMatch r (k @ c # rest) \<Longrightarrow> hasMatch r k \<or> hasMatch r rest"
proof (induction k)
  case Nil
  then have "reExec r (c # rest) \<noteq> None \<or> hasMatch r rest" by simp
  then show ?case using assms [of "[]" rest] by auto
next
  case (Cons x k)
  then have "reExec r ((x # k) @ c # rest) \<noteq> None \<or> hasMatch r (k @ c # rest)" by simp
  then show ?case using assms [of "x # k" rest] Cons.IH by auto
qed

lemma hasMatch_join:
  assumes "\<And>k rest. reExec r (k @ CHR ''.'' # rest) \<noteq> None \<Longrightarrow> reExec r k \<noteq> None"
    and "reExec r [] = None"
  shows "hasMatch r (join ''.'' p) \<Longrightarrow> \<exists>k \<in> set p. hasMatch r k"
proof (induction "''.''" p rule: join.induct)
  case 1
  with assms(2) show ?case by simp
next
  case (2 x)
  then show ?case by simp
next
  case (3 x y ys)
  from "3.prems" have "hasMatch r (x @ CHR ''.'' # join ''.'' (y # ys))" by simp
  from hasMatch_separated [of r "CHR ''.''", OF assms(1) this] "3.hyps" show ?case by auto
qed

lemma tryLongest_some:
  "n \<le> J \<Longrightarrow> \<exists>a b. k (drop J inp) cs = Some (a, b) \<Longrightarrow>
   \<exists>a b. tryLongest J n inp cs k = Some (a, b)"
  by (cases J) auto

lemma bracketIndex_shape:
  assumes "reExec bracketIndexRe t \<noteq> None"
  shows "\<exists>ds rest. t = CHR ''['' # ds @ CHR '']'' # rest \<and> ds \<noteq> [] \<and> list_all isDigit ds"
proof -
  from assms obtain m cs where "reExec bracketIndexRe t = Some (m, cs)" by auto
  from reExec_sound [OF this] obtain rest where m: "m \<in> lang bracketIndexRe" and t: "t = m @ rest"
    by blast
  from m obtain ds where "m = CHR ''['' # ds @ '']''" "1 \<le> length ds" "list_all isDigit ds"
    by (auto simp: bracketIndexRe_def list_all_iff)
  with t show ?thesis by auto
qed

lemma bracketIndex_complete:
  assumes "ds \<noteq> []" and "list_all isDigit ds"
  shows "reExec bracketIndexRe (CHR ''['' # ds @ CHR '']'' # rest) \<noteq> None"
proof -
  let ?u = "ds @ CHR '']'' # rest"
  have "\<not> isDigit (CHR '']'')" by (simp add: isDigit_def)
  then have "takeWhile isDigit ?u = takeWhile isDigit ds" by (rule takeWhile_tail)
  also have "\<dots> = ds" using assms(2) by (simp add: list_all_iff)
  finally have tw: "takeWhile (inClass Digit) ?u = ds" by (simp add: inClass.simps [abs_def])
  show ?thesis
    unfolding reExec_def bracketIndexRe_def
    using assms(1)
    apply (simp add: tw)
    apply (rule tryLongest_some)
     apply (cases ds; simp)
    apply simp
    done
qed

lemma bracketIndex_local:
  assumes "reExec bracketIndexRe (k @ CHR ''.'' # rest) \<noteq> None"
  shows "reExec bracketIndexRe k \<noteq> None"
proof -
  from bracketIndex_shape [OF assms] obtain ds rest'
    where t: "k @ CHR ''.'' # rest = CHR ''['' # ds @ CHR '']'' # rest'"
      and ds: "ds \<noteq> []" "list_all isDigit ds"
    by blast
  let ?m = "CHR ''['' # ds @ '']''"
  have "prefix ?m (k @ CHR ''.'' # rest)" unfolding t by (simp add: prefix_def)
  moreover have "CHR ''.'' \<notin> set ?m" using ds(2) by (auto simp: list_all_iff isDigit_def)
  ultimately have "prefix ?m k" by (rule prefix_before)
  then obtain k' where "k = CHR ''['' # ds @ CHR '']'' # k'" by (auto simp: prefix_def)
  with bracketIndex_complete [OF ds, of k'] show ?thesis by simp
qed

lemma bracketStar_local:
  assumes "reExec bracketStarRe (k @ CHR ''.'' # rest) \<noteq> None"
  shows "reExec bracketStarRe k \<noteq> None"
proof -
  from assms have "prefix ''[*]'' (k @ CHR ''.'' # rest)"
    by (simp add: reExec_def bracketStarRe_def split: if_splits)
  then have "prefix ''[*]'' k" by (rule prefix_before) simp
  then show ?thesis by (simp add: reExec_def bracketStarRe_def)
qed

lemma normalizePath_safe:
  "\<not> hasMatch bracketIndexRe s \<Longrightarrow> \<not> hasMatch bracketStarRe s \<Longrightarrow> normalizePath s = s"
  unfolding normalizePath_def by (simp add: replaceAll_no_match)

lemma splitOn_join:
  "ps \<noteq> [] \<Longrightarrow> list_all (\<lambda>k. d \<notin> set k) ps \<Longrightarrow> splitOn d (join [d] ps) = ps"
proof (induction "[d]" ps rule: join.induct)
  case (2 x)
  then show ?case by (simp add: splitOn_no_sep)
next
  case (3 x y ys)
  then show ?case by (simp add: splitOn_append_sep)
qed simp

lemma parsePath_join:
  assumes "p \<noteq> []" and "list_all pathSafe p"
  shows "parsePath (join ''.'' p) = p"
proof -
  have i: "reExec bracketIndexRe [] = None"
    by (simp add: reExec_def bracketIndexRe_def)
  have s: "reExec bracketStarRe [] = None"
    by (simp add: reExec_def bracketStarRe_def)
  have "\<not> hasMatch bracketIndexRe (join ''.'' p)"
    using hasMatch_join [of bracketIndexRe p, OF bracketIndex_local i] assms(2)
    by (auto simp: list_all_iff pathSafe_def)
  moreover have "\<not> hasMatch bracketStarRe (join ''.'' p)"
    using hasMatch_join [of bracketStarRe p, OF bracketStar_local s] assms(2)
    by (auto simp: list_all_iff pathSafe_def)
  ultimately have "normalizePath (join ''.'' p) = join ''.'' p" by (rule normalizePath_safe)
  moreover have "list_all (\<lambda>k. CHR ''.'' \<notin> set k) p"
    using assms(2) by (simp add: list_all_iff pathSafe_def)
  ultimately show ?thesis
    unfolding parsePath_def using splitOn_join [OF assms(1), of "CHR ''.''"] by simp
qed

lemma carried_key_parses:
  assumes "p \<noteq> []" and "carried p"
  shows "parsePath (flatKey [] p) = p"
proof -
  from assms have "flatKey [] p = join ''.'' p"
    by (intro flatKey_carried) (simp_all add: carried_def)
  moreover from assms have "parsePath (join ''.'' p) = p"
    by (intro parsePath_join) (simp_all add: carried_def)
  ultimately show ?thesis by (simp only:)
qed

lemma carried_keys_distinct:
  assumes "wf_jsval (JObj obj)" and "list_all (\<lambda>(p, x). carried p) (leaves obj)"
  shows "distinct (map fst (keyed [] (leaves obj)))"
proof -
  have parses: "parsePath (flatKey [] a) = a" if "a \<in> set (map fst (leaves obj))" for a
  proof -
    from that obtain xa where m: "(a, xa) \<in> set (leaves obj)" by auto
    then have "a \<noteq> []" by (rule leaves_nonempty(1))
    moreover from assms(2) m have "carried a" by (auto simp: list_all_iff)
    ultimately show ?thesis by (rule carried_key_parses)
  qed
  have inj: "inj_on (flatKey []) (set (map fst (leaves obj)))"
  proof (rule inj_onI)
    fix a b assume a: "a \<in> set (map fst (leaves obj))" and b: "b \<in> set (map fst (leaves obj))"
      and e: "flatKey [] a = flatKey [] b"
    have "a = parsePath (flatKey [] a)" by (rule parses [OF a, symmetric])
    also have "\<dots> = parsePath (flatKey [] b)" using e by (rule arg_cong)
    also have "\<dots> = b" by (rule parses [OF b])
    finally show "a = b" .
  qed
  have "map fst (keyed [] (leaves obj)) = map (flatKey []) (map fst (leaves obj))"
    by (simp add: keyed_def case_prod_beta comp_def)
  moreover have "distinct (map (flatKey []) (map fst (leaves obj)))"
    using leaves_distinct(1) [OF assms(1)] inj by (simp only: distinct_map)
  ultimately show ?thesis by (simp only:)
qed

text \<open>
  C9, as the code has it. For every object (with distinct keys at every level) in which
  every leaf is reached by keys that contain no dot and no bracketed index \<open>[digits]\<close>
  or \<open>[*]\<close>, and no leaf lies inside an object held under the empty key at top level:
  every key \<open>k\<close> of \<open>flattenObject(obj)\<close> satisfies
  \<open>resolveJsonPath(obj, k) = flattenObject(obj)[k]\<close>. Nested objects may be empty, keys
  that lead to no leaf are free, and so are the keys inside arrays.
\<close>

theorem C9_flatten_resolve_round_trip:
  assumes "wf_jsval (JObj obj)" and "list_all (\<lambda>(p, x). carried p) (leaves obj)"
  shows "\<forall>k \<in> set (Object_keys (flattenObject obj [])).
           resolveJsonPath (JObj obj) k = getProp (flattenObject obj []) k"
proof
  fix k assume "k \<in> set (Object_keys (flattenObject obj []))"
  let ?keyed = "keyed [] (leaves obj)"
  note fl = flatten_lookup(1) [of obj "[]"]
  have "k \<in> fst ` set (flattenObject obj [])"
    using \<open>k \<in> set (Object_keys (flattenObject obj []))\<close> by (simp only: Object_keys_def set_map)
  also have "fst ` set (flattenObject obj []) = fst ` set (stored ?keyed)"
    using fl by (rule conjunct2)
  finally obtain x where st: "(k, x) \<in> set (stored ?keyed)" by force
  then have "(k, x) \<in> set ?keyed" by (simp add: stored_def)
  then obtain p where px: "(p, x) \<in> set (leaves obj)" and k: "k = flatKey [] p"
    by (auto simp: keyed_def)
  from px have ne: "p \<noteq> []" by (rule leaves_nonempty(1))
  from assms(2) px have c: "carried p" by (auto simp: list_all_iff)
  have "resolveJsonPath (JObj obj) k = resolve_loop (JObj obj) (parsePath k)"
    by (rule resolveJsonPath.simps)
  also have "parsePath k = p" unfolding k using ne c by (rule carried_key_parses)
  also have "resolve_loop (JObj obj) p = x" using assms(1) px by (rule resolve_leaves(1))
  finally have r: "resolveJsonPath (JObj obj) k = x" .
  have "distinct (map fst ?keyed)" using assms by (rule carried_keys_distinct)
  then have d: "distinct (map fst (stored ?keyed))"
    unfolding stored_def by (rule distinct_map_filter)
  from d st have "map_of (stored ?keyed) k = Some x" by (rule map_of_is_SomeI)
  moreover have "map_of (flattenObject obj []) = map_of (rev (stored ?keyed))"
    using fl by (rule conjunct1)
  moreover have "map_of (rev (stored ?keyed)) = map_of (stored ?keyed)"
    using d by (rule map_of_rev_distinct)
  ultimately have "map_of (flattenObject obj []) k = Some x" by (simp only:)
  then have "getProp (flattenObject obj []) k = x" by (simp only: getProp_def option.case)
  with r show "resolveJsonPath (JObj obj) k = getProp (flattenObject obj []) k" by (simp only:)
qed

text \<open>
  Flattening \<open>{a:{b:1, c:{d:2}}}\<close> gives \<open>{"a.b":1, "a.c.d":2}\<close>, and \<open>"a.c.d"\<close> resolves to
  2 on the nested object.
\<close>

theorem C9_flatten_resolve_round_trip_witness:
  "flattenObject [(''a'', JObj [(''b'', JNum 1), (''c'', JObj [(''d'', JNum 2)])])] []
     = [(''a.b'', JNum 1), (''a.c.d'', JNum 2)]
   \<and> resolveJsonPath (JObj [(''a'', JObj [(''b'', JNum 1), (''c'', JObj [(''d'', JNum 2)])])]) ''a.c.d''
     = JNum 2"
proof -
  let ?obj = "[(''a'', JObj [(''b'', JNum 1), (''c'', JObj [(''d'', JNum 2)])])]"
  have w: "wf_jsval (JObj ?obj)" by simp
  have p: "list_all (\<lambda>(p, x). carried p) (leaves ?obj)" by code_simp
  have f: "flattenObject ?obj [] = [(''a.b'', JNum 1), (''a.c.d'', JNum 2)]"
    by code_simp
  have "''a.c.d'' \<in> set (Object_keys (flattenObject ?obj []))"
    unfolding f by (simp add: Object_keys_def)
  with C9_flatten_resolve_round_trip [OF w p]
  have "resolveJsonPath (JObj ?obj) ''a.c.d'' = getProp (flattenObject ?obj []) ''a.c.d''"
    by (rule bspec)
  also have "\<dots> = JNum 2" unfolding f by (simp add: getProp_def)
  finally show ?thesis using f by (simp only: simp_thms)
qed

text \<open>
  C9 as stated fails, in three ways. The keys \<open>a[0]\<close> and \<open>a[*]\<close> contain no dot:
  flattening \<open>{"a[0]": 1}\<close> keeps the key with its value 1, and resolving the path \<open>a[0]\<close>
  on the object gives \<open>undefined\<close>, because the path is read as \<open>a.0\<close>; likewise for
  \<open>a[*]\<close>, read as \<open>a.*\<close>. And in \<open>{"": {b: 1}}\<close>, whose keys contain no dot and whose
  nested object is not empty, the leaf is flattened to the key \<open>b\<close>, which resolves to
  \<open>undefined\<close> on the object.
\<close>

theorem C9_bracket_key_counterexample:
  "CHR ''.'' \<notin> set ''a[0]''
   \<and> flattenObject [(''a[0]'', JNum 1)] [] = [(''a[0]'', JNum 1)]
   \<and> getProp (flattenObject [(''a[0]'', JNum 1)] []) ''a[0]'' = JNum 1
   \<and> resolveJsonPath (JObj [(''a[0]'', JNum 1)]) ''a[0]'' = JUndefined
   \<and> CHR ''.'' \<notin> set ''a[*]''
   \<and> flattenObject [(''a[*]'', JNum 1)] [] = [(''a[*]'', JNum 1)]
   \<and> getProp (flattenObject [(''a[*]'', JNum 1)] []) ''a[*]'' = JNum 1
   \<and> resolveJsonPath (JObj [(''a[*]'', JNum 1)]) ''a[*]'' = JUndefined
   \<and> flattenObject [('''', JObj [(''b'', JNum 1)])] [] = [(''b'', JNum 1)]
   \<and> getProp (flattenObject [('''', JObj [(''b'', JNum 1)])] []) ''b'' = JNum 1
   \<and> resolveJsonPath (JObj [('''', JObj [(''b'', JNum 1)])]) ''b'' = JUndefined"
proof -
  have 1: "flattenObject [(''a[0]'', JNum 1)] [] = [(''a[0]'', JNum 1)]"
    by code_simp
  have 2: "parsePath ''a[0]'' = [''a'', ''0'']"
    by code_simp
  have 3: "resolveJsonPath (JObj [(''a[0]'', JNum 1)]) ''a[0]'' = JUndefined"
    unfolding resolveJsonPath.simps 2 by (simp add: getProp_def)
  have 4: "getProp [(''a[0]'', JNum 1)] ''a[0]'' = JNum 1"
    by (simp add: getProp_def)
  have 5: "CHR ''.'' \<notin> set ''a[0]''" by simp
  have 6: "flattenObject [(''a[*]'', JNum 1)] [] = [(''a[*]'', JNum 1)]"
    by code_simp
  have 7: "parsePath ''a[*]'' = [''a'', ''*'']"
    by code_simp
  have 8: "resolveJsonPath (JObj [(''a[*]'', JNum 1)]) ''a[*]'' = JUndefined"
    unfolding resolveJsonPath.simps 7 by (simp add: getProp_def)
  have 9: "getProp [(''a[*]'', JNum 1)] ''a[*]'' = JNum 1"
    by (simp add: getProp_def)
  have 10: "CHR ''.'' \<notin> set ''a[*]''" by simp
  have 11: "flattenObject [('''', JObj [(''b'', JNum 1)])] [] = [(''b'', JNum 1)]"
    by code_simp
  have 12: "parsePath ''b'' = [''b'']"
    by code_simp
  have 13: "resolveJsonPath (JObj [('''', JObj [(''b'', JNum 1)])]) ''b'' = JUndefined"
    unfolding resolveJsonPath.simps 12 by (simp add: getProp_def)
  have 14: "getProp [(''b'', JNum 1)] ''b'' = JNum 1"
    by (simp add: getProp_def)
  show ?thesis
    unfolding 1 6 11 using 3 4 5 8 9 10 13 14 by (simp only: simp_thms)
qed

text \<open>
  Keys the round trip does carry: an opening bracket without an index (\<open>a[b\<close>), an empty
  key below the top level (\<open>{a: {"": 1}}\<close>), an empty key at top level that holds a leaf,
  and a key with a dot that leads to no leaf (\<open>{"x.y": {}, b: 1}\<close>).
\<close>

lemma carried_examples:
  "list_all (\<lambda>(p, x). carried p) (leaves [(''a[b'', JNum 1)])
   \<and> list_all (\<lambda>(p, x). carried p) (leaves [(''a'', JObj [('''', JNum 1)])])
   \<and> list_all (\<lambda>(p, x). carried p) (leaves [('''', JNum 1)])
   \<and> list_all (\<lambda>(p, x). carried p) (leaves [(''x.y'', JObj []), (''b'', JNum 1)])
   \<and> flattenObject [(''a'', JObj [('''', JNum 1)])] [] = [(''a.'', JNum 1)]
   \<and> flattenObject [(''x.y'', JObj []), (''b'', JNum 1)] [] = [(''b'', JNum 1)]"
  by code_simp

text \<open>
  A key \<open>__proto__\<close> of the object (as \<open>JSON.parse\<close> creates it) is not a key of the
  flattened object: the write goes to the inherited setter.
\<close>

lemma flatten_proto_key:
  "flattenObject [(''__proto__'', JNum 1), (''b'', JNum 2)] [] = [(''b'', JNum 2)]"
  by code_simp

section \<open>Output formatter: field mapping and the json renderer\<close>

text \<open>The own entries of \<open>TARGET_TOOL_FIELDS\<close>.\<close>

definition TARGET_TOOL_FIELDS :: "string \<Rightarrow> string list option" where
  "TARGET_TOOL_FIELDS = map_of
    [(''add_customer'',
        [''name'', ''industry'', ''region'', ''engagementType'', ''d365Modules'', ''goLiveDate'',
         ''assignedArchitect'']),
     (''add_environment'',
        [''customerId'', ''name'', ''type'', ''region'', ''version'', ''lcsProjectId'', ''url'']),
     (''add_checklist_item'',
        [''customerId'', ''phase'', ''category'', ''title'', ''description'', ''owner'', ''dueDate'']),
     (''update_customer_status'', [''customerId'', ''status'', ''notes'']),
     (''update_checklist_item'', [''customerId'', ''itemId'', ''status'', ''notes''])]"

text \<open>\<open>s.toLowerCase()\<close> on code units below 256: the ASCII and the Latin-1 capitals.\<close>

definition toLowerChar :: "char \<Rightarrow> char" where
  "toLowerChar c =
     (let n = (of_char c :: nat)
      in if (65 \<le> n \<and> n \<le> 90) \<or> (192 \<le> n \<and> n \<le> 222 \<and> n \<noteq> 215) then char_of (n + 32) else c)"

definition toLowerCase :: "string \<Rightarrow> string" where
  "toLowerCase s = map toLowerChar s"

text \<open>
  \<open>mapFieldsToTarget\<close>; \<open>mapFields_loop\<close> is its loop over the expected fields with the
  object built so far. A key found by \<open>find\<close> is used only when it is truthy, that is,
  not the empty string. The result \<open>None\<close> is \<open>null\<close>. The function gives the value the
  call returns; \<open>mapFieldsThrows\<close> says when the call throws instead: for a tool name
  inherited from \<open>Object.prototype\<close> the table gives a function, which is truthy and
  not iterable, so with at least one record the loop throws a \<open>TypeError\<close>.
\<close>

fun mapFields_loop :: "string list \<Rightarrow> jsrecord \<Rightarrow> jsrecord \<Rightarrow> jsrecord" where
  "mapFields_loop [] sourceRecord mapped = mapped"
| "mapFields_loop (expected # es) sourceRecord mapped =
     (case find (\<lambda>k. toLowerCase k = toLowerCase expected) (Object_keys sourceRecord) of
        Some (c # cs) \<Rightarrow>
          mapFields_loop es sourceRecord (setProp mapped expected (getProp sourceRecord (c # cs)))
      | _ \<Rightarrow>
          (case find (\<lambda>k. str_includes (toLowerCase k) (toLowerCase expected)
                           \<or> str_includes (toLowerCase expected) (toLowerCase k))
                  (Object_keys sourceRecord) of
             Some (c # cs) \<Rightarrow>
               mapFields_loop es sourceRecord (setProp mapped expected (getProp sourceRecord (c # cs)))
           | _ \<Rightarrow> mapFields_loop es sourceRecord (setProp mapped expected JUndefined)))"

definition mapFieldsToTarget :: "jsrecord list \<Rightarrow> string \<Rightarrow> jsrecord option" where
  "mapFieldsToTarget rs tool =
     (case TARGET_TOOL_FIELDS tool of
        None \<Rightarrow> None
      | Some expectedFields \<Rightarrow>
          (if length rs = 0 then None
           else Some (mapFields_loop expectedFields (rs ! 0) [])))"

definition mapFieldsThrows :: "jsrecord list \<Rightarrow> string \<Rightarrow> bool" where
  "mapFieldsThrows rs tool =
     (case readTable TARGET_TOOL_FIELDS tool of
        Inherited inherited \<Rightarrow> length rs \<noteq> 0
      | _ \<Rightarrow> False)"

fun formatText :: "ExtractionOutputFormat \<Rightarrow> string" where
  "formatText Json = ''json''"
| "formatText Markdown = ''markdown''"
| "formatText Summary = ''summary''"
| "formatText KeyValue = ''key-value''"
| "formatText Csv = ''csv''"

text \<open>
  The metadata as the object that is serialised: the four fields every tool writes, then
  \<open>warnings\<close> and \<open>targetTool\<close> when they are set.
\<close>

definition metadataObject :: "ExtractionMetadata \<Rightarrow> jsval" where
  "metadataObject md =
     JObj ([(''source'', JStr (sourceText (source md))),
            (''extractedAt'', JStr (extractedAt md)),
            (''outputFormat'', JStr (formatText (outputFormat md))),
            (''recordCount'', JNum (int (recordCount md)))]
           @ (case warnings md of None \<Rightarrow> [] | Some ws \<Rightarrow> [(''warnings'', JArr (map JStr ws))])
           @ (case targetTool md of None \<Rightarrow> [] | Some t \<Rightarrow> [(''targetTool'', JStr t)]))"

definition renderJson :: "ExtractionResult \<Rightarrow> jsrecord option \<Rightarrow> string" where
  "renderJson result mappedFields =
     (let output = [(''metadata'', metadataObject (metadata result)),
                    (''records'', JArr (map JObj (records result)))];
          output' = (case mappedFields of
                       None \<Rightarrow> output
                     | Some m \<Rightarrow> setProp output ''mappedFields'' (JObj m))
      in case stringify ''  '' [] (JObj output') of Some s \<Rightarrow> s | None \<Rightarrow> [])"

lemma stringify_props_undefined:
  "stringify_props gap indent ((k, JUndefined) # kvs) = stringify_props gap indent kvs"
  by simp

text \<open>
  The source record \<open>{Name:"Acme", industry:"Retail"}\<close> of the spec's example, in a result
  for the target tool \<open>add_customer\<close>.
\<close>

definition acmeResult :: ExtractionResult where
  "acmeResult =
     \<lparr>metadata = \<lparr>source = SrcJson, extractedAt = ''2026-01-01T00:00:00.000Z'',
                  outputFormat = Json, recordCount = 1, warnings = None,
                  targetTool = Some ''add_customer''\<rparr>,
      records = [[(''Name'', JStr ''Acme''), (''industry'', JStr ''Retail'')]],
      fieldHints = None\<rparr>"

text \<open>
  C3 at the spec's own example. The mapping holds \<open>goLiveDate\<close> (and the other unmatched
  fields) with the value \<open>undefined\<close>, the mapped fields \<open>name\<close> and \<open>industry\<close> are
  printed, and the text of the json rendering does not contain \<open>goLiveDate\<close> at all: a
  property whose value is \<open>undefined\<close> is left out by \<open>JSON.stringify\<close>.
\<close>

theorem C3_unmatched_field_not_rendered:
  "mapFieldsToTarget (records acmeResult) ''add_customer''
     = Some [(''name'', JStr ''Acme''), (''industry'', JStr ''Retail''), (''region'', JUndefined),
             (''engagementType'', JUndefined), (''d365Modules'', JUndefined),
             (''goLiveDate'', JUndefined), (''assignedArchitect'', JUndefined)]
   \<and> str_includes (renderJson acmeResult (mapFieldsToTarget (records acmeResult) ''add_customer''))
         ''mappedFields''
   \<and> \<not> str_includes (renderJson acmeResult (mapFieldsToTarget (records acmeResult) ''add_customer''))
         ''goLiveDate''"
  by code_simp

section \<open>Code structure extractor\<close>

record CodeRecord =
  type :: string
  name :: string
  line :: nat
  signature :: string

definition LANGUAGE_MAP :: "string \<Rightarrow> string option" where
  "LANGUAGE_MAP = map_of
    [(''.ts'', ''typescript''), (''.tsx'', ''typescript''), (''.js'', ''javascript''),
     (''.jsx'', ''javascript''), (''.cs'', ''csharp''), (''.xpp'', ''xpp''), (''.xml'', ''xml''),
     (''.json'', ''json''), (''.py'', ''python''), (''.java'', ''java''), (''.sql'', ''sql'')]"

text \<open>
  \<open>detectLanguage\<close>, from the extension of the file: \<open>ext\<close> stands for the value of
  \<open>extname(filePath)\<close>, a function of the platform that is not modelled. That value is
  the empty string or begins with a dot (\<open>isExtension\<close>), so it is never the name of an
  inherited property and the read of the table is a read of its own entries.
\<close>

definition isExtension :: "string \<Rightarrow> bool" where
  "isExtension ext = (ext = [] \<or> prefix ''.'' ext)"

definition detectLanguage :: "string \<Rightarrow> string" where
  "detectLanguage ext = (case LANGUAGE_MAP (toLowerCase ext) of Some l \<Rightarrow> l | None \<Rightarrow> ''unknown'')"

fun seqs :: "re list \<Rightarrow> re" where
  "seqs [] = Lit []"
| "seqs [r] = r"
| "seqs (r # rs) = Seq r (seqs rs)"

fun alts :: "re list \<Rightarrow> re" where
  "alts [] = Lit []"
| "alts [r] = r"
| "alts (r # rs) = Alt r (alts rs)"

text \<open>
  The declaration patterns, per language and in the order they are tried. Each starts
  with \<open>^\<close>, so it is matched at the start of the line.
\<close>

definition typescriptPatterns :: "re list" where
  "typescriptPatterns =
    [seqs [Opt (Group 1 (seqs [Lit ''export'', Many Space 1])),
           Group 2 (alts [Lit ''interface'', Lit ''type'', Lit ''enum'', Lit ''class'',
                          seqs [Lit ''abstract'', Many Space 1, Lit ''class'']]),
           Many Space 1, Group 3 (Many Word 1)],
     seqs [Opt (Group 1 (seqs [Lit ''export'', Many Space 1])),
           Opt (Group 2 (seqs [Lit ''async'', Many Space 1])),
           Lit ''function'', Many Space 1, Group 3 (Many Word 1)],
     seqs [Many Space 0,
           Group 1 (alts [Lit ''public'', Lit ''private'', Lit ''protected'', Lit ''static'', Lit ''async'']),
           Many Space 1, Group 2 (Many Word 1), Many Space 0, Lit ''('']]"

definition javascriptPatterns :: "re list" where
  "javascriptPatterns =
    [seqs [Opt (Group 1 (seqs [Lit ''export'', Many Space 1])),
           Group 2 (Lit ''class''), Many Space 1, Group 3 (Many Word 1)],
     seqs [Opt (Group 1 (seqs [Lit ''export'', Many Space 1])),
           Opt (Group 2 (seqs [Lit ''async'', Many Space 1])),
           Lit ''function'', Many Space 1, Group 3 (Many Word 1)],
     seqs [Many Space 0, Group 1 (alts [Lit ''const'', Lit ''let'', Lit ''var'']),
           Many Space 1, Group 2 (Many Word 1), Many Space 0, Lit ''='', Many Space 0,
           Opt (Group 3 (seqs [Lit ''async'', Many Space 1])), Lit ''('']]"

definition csharpPatterns :: "re list" where
  "csharpPatterns =
    [seqs [Many Space 0,
           Opt (Group 1 (alts [Lit ''public'', Lit ''private'', Lit ''protected'', Lit ''internal''])),
           Many Space 0,
           Opt (Group 2 (seqs [Lit ''static'', Many Space 1])),
           Opt (Group 3 (seqs [Lit ''partial'', Many Space 1])),
           Group 4 (alts [Lit ''class'', Lit ''interface'', Lit ''struct'', Lit ''enum'', Lit ''record'']),
           Many Space 1, Group 5 (Many Word 1)],
     seqs [Many Space 0,
           Opt (Group 1 (alts [Lit ''public'', Lit ''private'', Lit ''protected'', Lit ''internal''])),
           Many Space 0,
           Opt (Group 2 (seqs [Lit ''static'', Many Space 1])),
           Opt (Group 3 (seqs [Lit ''async'', Many Space 1])),
           Opt (Group 4 (seqs [Lit ''virtual'', Many Space 1])),
           Opt (Group 5 (seqs [Lit ''override'', Many Space 1])),
           One Word, Many (Union Word (Union (Chars ''<>[],'') Space)) 0,
           Many Space 1, Group 6 (Many Word 1), Many Space 0, Lit ''('']]"

definition xppPatterns :: "re list" where
  "xppPatterns =
    [seqs [Many Space 0,
           Opt (Group 1 (alts [Lit ''public'', Lit ''private'', Lit ''protected''])),
           Many Space 0,
           Opt (Group 2 (seqs [Lit ''static'', Many Space 1])),
           Group 3 (alts [Lit ''class'', Lit ''interface'', Lit ''table'']),
           Many Space 1, Group 4 (Many Word 1)],
     seqs [Many Space 0,
           Opt (Group 1 (alts [Lit ''public'', Lit ''private'', Lit ''protected''])),
           Many Space 0,
           Opt (Group 2 (seqs [Lit ''static'', Many Space 1])),
           Many Word 1, Many Space 1, Group 3 (Many Word 1), Many Space 0, Lit ''('']]"

definition pythonPatterns :: "re list" where
  "pythonPatterns =
    [seqs [Lit ''class'', Many Space 1, Group 1 (Many Word 1)],
     seqs [Opt (Group 1 (seqs [Lit ''async'', Many Space 1])),
           Lit ''def'', Many Space 1, Group 2 (Many Word 1)]]"

definition javaPatterns :: "re list" where
  "javaPatterns =
    [seqs [Many Space 0,
           Opt (Group 1 (alts [Lit ''public'', Lit ''private'', Lit ''protected''])),
           Many Space 0,
           Opt (Group 2 (seqs [Lit ''static'', Many Space 1])),
           Opt (Group 3 (seqs [Lit ''abstract'', Many Space 1])),
           Group 4 (alts [Lit ''class'', Lit ''interface'', Lit ''enum'']),
           Many Space 1, Group 5 (Many Word 1)],
     seqs [Many Space 0,
           Opt (Group 1 (alts [Lit ''public'', Lit ''private'', Lit ''protected''])),
           Many Space 0,
           Opt (Group 2 (seqs [Lit ''static'', Many Space 1])),
           Opt (Group 3 (seqs [Lit ''abstract'', Many Space 1])),
           One Word, Many (Union Word (Union (Chars ''<>[],'') Space)) 0,
           Many Space 1, Group 4 (Many Word 1), Many Space 0, Lit ''('']]"

text \<open>The own entries of the table \<open>patterns\<close> of \<open>extractStructure\<close>.\<close>

definition patterns :: "string \<Rightarrow> re list option" where
  "patterns = map_of
    [(''typescript'', typescriptPatterns), (''javascript'', javascriptPatterns),
     (''csharp'', csharpPatterns), (''xpp'', xppPatterns), (''python'', pythonPatterns),
     (''java'', javaPatterns)]"

text \<open>The number of capturing groups of a pattern: the match array has one entry more.\<close>

primrec groupCount :: "re \<Rightarrow> nat" where
  "groupCount (Lit s) = 0"
| "groupCount (LitI s) = 0"
| "groupCount (One c) = 0"
| "groupCount (Many c n) = 0"
| "groupCount (Seq a b) = groupCount a + groupCount b"
| "groupCount (Alt a b) = groupCount a + groupCount b"
| "groupCount (Opt a) = groupCount a"
| "groupCount (Group g a) = Suc (groupCount a)"
| "groupCount Eos = 0"

text \<open>
  \<open>line.match(pattern)\<close> as the array it returns: the matched text, then every group,
  \<open>None\<close> for a group that took no part.
\<close>

definition matchArray :: "re \<Rightarrow> string \<Rightarrow> string option list option" where
  "matchArray pat s =
     (case reExec pat s of
        None \<Rightarrow> None
      | Some (m, cs) \<Rightarrow> Some (Some m # map (capture cs) [1 ..< Suc (groupCount pat)]))"

text \<open>\<open>s.replace(/r/, ...)\<close> without the \<open>g\<close> flag: the leftmost match only.\<close>

fun replaceFirst :: "re \<Rightarrow> (string \<Rightarrow> caps \<Rightarrow> string) \<Rightarrow> string \<Rightarrow> string" where
  "replaceFirst r f [] = (case reExec r [] of Some (m, cs) \<Rightarrow> f m cs | None \<Rightarrow> [])"
| "replaceFirst r f (c # s) =
     (case reExec r (c # s) of
        Some (m, cs) \<Rightarrow> f m cs @ drop (length m) (c # s)
      | None \<Rightarrow> c # replaceFirst r f s)"

definition inferType :: "string \<Rightarrow> string \<Rightarrow> string" where
  "inferType sig language =
     (let s = toLowerCase sig in
      if str_includes s ''class'' then ''class''
      else if str_includes s ''interface'' then ''interface''
      else if str_includes s ''enum'' then ''enum''
      else if str_includes s ''struct'' then ''struct''
      else if str_includes s ''type '' \<and> language = ''typescript'' then ''type''
      else if str_includes s ''function'' \<or> str_includes s ''def '' then ''function''
      else if str_includes s ''table'' \<and> language = ''xpp'' then ''table''
      else ''method'')"

text \<open>The record for a line and the match array of the first pattern that matched it.\<close>

definition structureRecord :: "string \<Rightarrow> string \<Rightarrow> nat \<Rightarrow> string option list \<Rightarrow> CodeRecord" where
  "structureRecord language ln i mt =
     (let sig = trim ln;
          nonEmpty = filter (\<lambda>g. g \<noteq> [] \<and> \<not> list_all isSpace g) (List.map_filter id mt);
          nm = (if nonEmpty \<noteq> [] \<and> last nonEmpty \<noteq> [] then last nonEmpty else take 50 sig)
      in \<lparr>type = inferType sig language,
          name = replaceFirst (seqs [Many Space 0, Lit ''('', Eos]) (\<lambda>m cs. []) nm,
          line = i + 1,
          signature = take 200 sig\<rparr>)"

fun firstMatch :: "re list \<Rightarrow> string \<Rightarrow> string option list option" where
  "firstMatch [] ln = None"
| "firstMatch (pat # pats) ln =
     (case matchArray pat ln of Some mt \<Rightarrow> Some mt | None \<Rightarrow> firstMatch pats ln)"

fun extractStructure_loop :: "re list \<Rightarrow> string \<Rightarrow> string list \<Rightarrow> nat \<Rightarrow> CodeRecord list" where
  "extractStructure_loop langPatterns language [] i = []"
| "extractStructure_loop langPatterns language (ln # lns) i =
     (case firstMatch langPatterns ln of
        Some mt \<Rightarrow> [structureRecord language ln i mt]
      | None \<Rightarrow> [])
     @ extractStructure_loop langPatterns language lns (i + 1)"

text \<open>
  \<open>patterns[language] || patterns.typescript\<close>: the language may be a hint of the caller.
  For a name inherited from \<open>Object.prototype\<close> the read gives a function (or the
  prototype), which is truthy and is not iterable, so the loop over the patterns throws a
  \<open>TypeError\<close> at the first line; a text always has a first line.
\<close>

datatype error = TypeError

definition extractStructure :: "string \<Rightarrow> string \<Rightarrow> error + CodeRecord list" where
  "extractStructure content language =
     (let lns = splitOn (CHR 0x0A) content in
      case readTable patterns language of
        Own ps \<Rightarrow> Inr (extractStructure_loop ps language lns 0)
      | Inherited inherited \<Rightarrow> Inl TypeError
      | NoProperty \<Rightarrow> Inr (extractStructure_loop typescriptPatterns language lns 0))"

text \<open>The own entries of the table \<open>importPatterns\<close> of \<open>extractImports\<close>.\<close>

definition importPatterns :: "string \<Rightarrow> re option" where
  "importPatterns = map_of
    [(''typescript'', seqs [Lit ''import'', Many Space 1, Many AnyChar 0]),
     (''javascript'', seqs [Group 1 (alts [Lit ''import'', Lit ''require'']), Many Space 0,
                            Opt (Lit ''(''), Many AnyChar 0]),
     (''csharp'', seqs [Lit ''using'', Many Space 1, Many AnyChar 0]),
     (''xpp'', seqs [Lit ''using'', Many Space 1, Many AnyChar 0]),
     (''python'', seqs [Group 1 (alts [Lit ''import'', Lit ''from'']), Many Space 1, Many AnyChar 0]),
     (''java'', seqs [Lit ''import'', Many Space 1, Many AnyChar 0])]"

fun extractImports_loop :: "re \<Rightarrow> string list \<Rightarrow> nat \<Rightarrow> CodeRecord list" where
  "extractImports_loop pat [] i = []"
| "extractImports_loop pat (ln # lns) i =
     (if reExec pat (trim ln) \<noteq> None
      then [\<lparr>type = ''import'', name = trim ln, line = i + 1, signature = trim ln\<rparr>]
      else [])
     @ extractImports_loop pat lns (i + 1)"

text \<open>
  \<open>importPatterns[language] || importPatterns.typescript\<close>: an inherited property has no
  method \<open>test\<close>, so the call on the first line throws a \<open>TypeError\<close>.
\<close>

definition extractImports :: "string \<Rightarrow> string \<Rightarrow> error + CodeRecord list" where
  "extractImports content language =
     (let lns = splitOn (CHR 0x0A) content in
      case readTable importPatterns language of
        Own p \<Rightarrow> Inr (extractImports_loop p lns 0)
      | Inherited inherited \<Rightarrow> Inl TypeError
      | NoProperty \<Rightarrow>
          Inr (extractImports_loop (seqs [Lit ''import'', Many Space 1, Many AnyChar 0]) lns 0))"

fun extractExports_loop :: "string \<Rightarrow> string list \<Rightarrow> nat \<Rightarrow> CodeRecord list" where
  "extractExports_loop language [] i = []"
| "extractExports_loop language (l # lns) i =
     (let ln = trim l in
      if (language = ''typescript'' \<or> language = ''javascript'') \<and> startsWith ln ''export ''
      then [\<lparr>type = ''export'', name = take 80 ln, line = i + 1, signature = take 200 ln\<rparr>]
      else if (language = ''csharp'' \<or> language = ''java'' \<or> language = ''xpp'')
              \<and> reExec (seqs [Lit ''public'', Many Space 1]) ln \<noteq> None
      then [\<lparr>type = ''export'', name = take 80 ln, line = i + 1, signature = take 200 ln\<rparr>]
      else [])
     @ extractExports_loop language lns (i + 1)"

definition extractExports :: "string \<Rightarrow> string \<Rightarrow> CodeRecord list" where
  "extractExports content language = extractExports_loop language (splitOn (CHR 0x0A) content) 0"

text \<open>
  \<open>extractComments\<close>: the loop carries \<open>inBlock\<close>, \<open>blockStart\<close> and \<open>blockLines\<close>; on
  every line the block is handled first and the triple slash second.
\<close>

fun extractComments_loop :: "string list \<Rightarrow> nat \<Rightarrow> bool \<Rightarrow> nat \<Rightarrow> string list \<Rightarrow> CodeRecord list" where
  "extractComments_loop [] i inBlock blockStart blockLines = []"
| "extractComments_loop (l # lns) i inBlock blockStart blockLines =
     (let ln = trim l;
          xmlDoc = (if startsWith ln ''///''
                    then [\<lparr>type = ''xml-doc-comment'', name = ''Comment at line '' @ showNat (i + 1),
                            line = i + 1, signature = take 200 ln\<rparr>]
                    else [])
      in if startsWith ln ''/**'' \<and> \<not> inBlock then
           xmlDoc @ extractComments_loop lns (i + 1) True (i + 1) [ln]
         else if inBlock then
           (if str_includes ln ''*/'' then
              [\<lparr>type = ''doc-comment'', name = ''Comment at line '' @ showNat blockStart,
                 line = blockStart,
                 signature = take 500 (join [CHR 0x0A] (blockLines @ [ln]))\<rparr>]
              @ xmlDoc @ extractComments_loop lns (i + 1) False blockStart []
            else xmlDoc @ extractComments_loop lns (i + 1) True blockStart (blockLines @ [ln]))
         else xmlDoc @ extractComments_loop lns (i + 1) inBlock blockStart blockLines)"

definition extractComments :: "string \<Rightarrow> CodeRecord list" where
  "extractComments content = extractComments_loop (splitOn (CHR 0x0A) content) 0 False 0 []"

text \<open>The \<open>full\<close> mode: one record per line, the first 500 lines.\<close>

fun fullRecords :: "string list \<Rightarrow> nat \<Rightarrow> CodeRecord list" where
  "fullRecords [] i = []"
| "fullRecords (ln # lns) i =
     \<lparr>type = ''line'', name = showNat (i + 1), line = i + 1, signature = ln\<rparr>
       # fullRecords lns (i + 1)"

definition extractFull :: "string \<Rightarrow> CodeRecord list" where
  "extractFull content =
     (let codeRecords = fullRecords (splitOn (CHR 0x0A) content) 0
      in if length codeRecords > 500 then take 500 codeRecords else codeRecords)"

datatype ExtractionMode = Full | Structure | Imports | Exports | Comments

text \<open>
  The handler of \<open>extract_code\<close> up to its list of code records: the language is the hint
  when one is given (the empty hint is falsy), else the one detected from the extension;
  the mode is \<open>structure\<close> when none is given. An error is what the handler catches
  and reports instead of records.
\<close>

definition resolveLanguage :: "string option \<Rightarrow> string \<Rightarrow> string" where
  "resolveLanguage language ext =
     (case language of
        Some (c # cs) \<Rightarrow> c # cs
      | _ \<Rightarrow> detectLanguage ext)"

definition extractCode ::
  "string \<Rightarrow> ExtractionMode option \<Rightarrow> string option \<Rightarrow> string \<Rightarrow> error + CodeRecord list" where
  "extractCode content extractionMode language ext =
     (let lang = resolveLanguage language ext in
      case (case extractionMode of Some m \<Rightarrow> m | None \<Rightarrow> Structure) of
        Full \<Rightarrow> Inr (extractFull content)
      | Structure \<Rightarrow> extractStructure content lang
      | Imports \<Rightarrow> extractImports content lang
      | Exports \<Rightarrow> Inr (extractExports content lang)
      | Comments \<Rightarrow> Inr (extractComments content))"

subsection \<open>The unknown language against typescript\<close>

lemma inferType_unknown:
  "inferType s ''typescript'' \<noteq> ''type'' \<Longrightarrow> inferType s ''unknown'' = inferType s ''typescript''"
  "inferType s ''typescript'' = ''type'' \<Longrightarrow>
     inferType s ''unknown'' = ''function'' \<or> inferType s ''unknown'' = ''method''"
  by (auto simp: inferType_def Let_def split: if_splits)

lemma structure_loop_untyped:
  "map (\<lambda>r. r\<lparr>type := []\<rparr>) (extractStructure_loop ps l1 lns i)
     = map (\<lambda>r. r\<lparr>type := []\<rparr>) (extractStructure_loop ps l2 lns i)"
  by (induction lns arbitrary: i) (auto simp: structureRecord_def Let_def split: option.splits)

lemma structure_loop_types:
  "list_all2 (\<lambda>u t. if type t = ''type'' then type u = ''function'' \<or> type u = ''method''
                    else type u = type t)
     (extractStructure_loop ps ''unknown'' lns i) (extractStructure_loop ps ''typescript'' lns i)"
proof (induction lns arbitrary: i)
  case Nil
  then show ?case by simp
next
  case (Cons ln lns)
  show ?case
  proof (cases "firstMatch ps ln")
    case None
    with Cons show ?thesis by simp
  next
    case (Some mt)
    have "type (structureRecord ''unknown'' ln i mt) = inferType (trim ln) ''unknown''"
      "type (structureRecord ''typescript'' ln i mt) = inferType (trim ln) ''typescript''"
      by (simp_all add: structureRecord_def Let_def)
    with inferType_unknown [of "trim ln"] Some Cons [of "i + 1"] show ?thesis
      by auto
  qed
qed

lemma exports_loop_unknown: "extractExports_loop ''unknown'' lns i = []"
  by (induction lns arbitrary: i) (simp_all add: Let_def)

lemma resolveLanguage_unknown:
  "LANGUAGE_MAP (toLowerCase ext) = None \<Longrightarrow> resolveLanguage None ext = ''unknown''"
  by (simp add: resolveLanguage_def detectLanguage_def)

lemma resolveLanguage_typescript: "resolveLanguage (Some ''typescript'') ext = ''typescript''"
  by (simp add: resolveLanguage_def)

lemma patterns_unknown:
  "readTable patterns ''unknown'' = NoProperty"
  "readTable patterns ''typescript'' = Own typescriptPatterns"
  by (simp_all add: readTable_def patterns_def objectPrototypeNames_def)

lemma extractImports_unknown:
  "extractImports content ''unknown'' = extractImports content ''typescript''"
  "extractImports content ''typescript''
     = Inr (extractImports_loop (seqs [Lit ''import'', Many Space 1, Many AnyChar 0])
              (splitOn (CHR 0x0A) content) 0)"
  by (simp_all add: extractImports_def readTable_def importPatterns_def objectPrototypeNames_def)

text \<open>
  C5, as the code has it. For a file whose extension is not in the extension table and
  every source text: in the modes imports, comments and full the outcome is exactly
  that of the language typescript, a list of records; in the mode structure (also the
  default mode) both give records, the same line by line, with the same names, line
  numbers and signatures, and with the same type tag except that a record typescript
  tags \<open>type\<close> is tagged \<open>function\<close> or \<open>method\<close>; in the mode exports the unknown
  language gives no record.
\<close>

theorem C5_unknown_language_fallback:
  assumes "isExtension ext" and "LANGUAGE_MAP (toLowerCase ext) = None"
  shows "extractCode content (Some Imports) None ext
           = extractCode content (Some Imports) (Some ''typescript'') ext
       \<and> (\<exists>rs. extractCode content (Some Imports) None ext = Inr rs)
       \<and> extractCode content (Some Comments) None ext
           = extractCode content (Some Comments) (Some ''typescript'') ext
       \<and> (\<exists>rs. extractCode content (Some Comments) None ext = Inr rs)
       \<and> extractCode content (Some Full) None ext
           = extractCode content (Some Full) (Some ''typescript'') ext
       \<and> (\<exists>rs. extractCode content (Some Full) None ext = Inr rs)
       \<and> (\<exists>us ts. extractCode content (Some Structure) None ext = Inr us
             \<and> extractCode content (Some Structure) (Some ''typescript'') ext = Inr ts
             \<and> map (\<lambda>r. r\<lparr>type := []\<rparr>) us = map (\<lambda>r. r\<lparr>type := []\<rparr>) ts
             \<and> list_all2 (\<lambda>u t. if type t = ''type''
                                 then type u = ''function'' \<or> type u = ''method''
                                 else type u = type t) us ts)
       \<and> extractCode content None None ext = extractCode content (Some Structure) None ext
       \<and> extractCode content (Some Exports) None ext = Inr []"
proof -
  note u = resolveLanguage_unknown [OF assms(2)] and t = resolveLanguage_typescript [of ext]
  let ?lns = "splitOn (CHR 0x0A) content"
  have 1: "extractCode content (Some Imports) None ext
           = extractCode content (Some Imports) (Some ''typescript'') ext"
    by (simp add: extractCode_def u t extractImports_unknown(1))
  have r1: "\<exists>rs. extractCode content (Some Imports) None ext = Inr rs"
    by (simp add: extractCode_def u extractImports_unknown)
  have 2: "extractCode content (Some Comments) None ext
           = extractCode content (Some Comments) (Some ''typescript'') ext"
    by (simp add: extractCode_def)
  have r2: "\<exists>rs. extractCode content (Some Comments) None ext = Inr rs"
    by (simp add: extractCode_def)
  have 3: "extractCode content (Some Full) None ext
           = extractCode content (Some Full) (Some ''typescript'') ext"
    by (simp add: extractCode_def)
  have r3: "\<exists>rs. extractCode content (Some Full) None ext = Inr rs"
    by (simp add: extractCode_def)
  have su: "extractCode content (Some Structure) None ext
      = Inr (extractStructure_loop typescriptPatterns ''unknown'' ?lns 0)"
    by (simp add: extractCode_def u extractStructure_def patterns_unknown(1))
  have st: "extractCode content (Some Structure) (Some ''typescript'') ext
      = Inr (extractStructure_loop typescriptPatterns ''typescript'' ?lns 0)"
    by (simp add: extractCode_def t extractStructure_def patterns_unknown(2))
  have 4: "\<exists>us ts. extractCode content (Some Structure) None ext = Inr us
             \<and> extractCode content (Some Structure) (Some ''typescript'') ext = Inr ts
             \<and> map (\<lambda>r. r\<lparr>type := []\<rparr>) us = map (\<lambda>r. r\<lparr>type := []\<rparr>) ts
             \<and> list_all2 (\<lambda>u t. if type t = ''type''
                                 then type u = ''function'' \<or> type u = ''method''
                                 else type u = type t) us ts"
    using su st structure_loop_untyped [of typescriptPatterns "''unknown''" ?lns 0 "''typescript''"]
      structure_loop_types [of typescriptPatterns ?lns 0]
    by blast
  have 6: "extractCode content None None ext = extractCode content (Some Structure) None ext"
    by (simp add: extractCode_def)
  have 7: "extractCode content (Some Exports) None ext = Inr []"
    by (simp add: extractCode_def u extractExports_def exports_loop_unknown)
  from 1 r1 2 r2 3 r3 4 6 7 show ?thesis by (simp only: simp_thms)
qed

text \<open>
  A file \<open>.txt\<close> with an import and a type alias: the same import record for both, and
  in the mode structure the alias is found by both and tagged \<open>method\<close> for the unknown
  language.
\<close>

theorem C5_unknown_language_fallback_witness:
  "extractCode (''import x from y'' @ [CHR 0x0A] @ ''type Foo = number'') (Some Imports) None ''.txt''
     = Inr [\<lparr>type = ''import'', name = ''import x from y'', line = 1, signature = ''import x from y''\<rparr>]
   \<and> extractCode (''import x from y'' @ [CHR 0x0A] @ ''type Foo = number'') (Some Imports)
       (Some ''typescript'') ''.txt''
     = Inr [\<lparr>type = ''import'', name = ''import x from y'', line = 1, signature = ''import x from y''\<rparr>]
   \<and> extractCode (''import x from y'' @ [CHR 0x0A] @ ''type Foo = number'') (Some Exports) None ''.txt''
     = Inr []"
proof -
  have e: "isExtension ''.txt''"
    by (simp add: isExtension_def)
  have a: "LANGUAGE_MAP (toLowerCase ''.txt'') = None"
    by code_simp
  have b: "extractCode (''import x from y'' @ [CHR 0x0A] @ ''type Foo = number'') (Some Imports)
       (Some ''typescript'') ''.txt''
     = Inr [\<lparr>type = ''import'', name = ''import x from y'', line = 1, signature = ''import x from y''\<rparr>]"
    by code_simp
  from C5_unknown_language_fallback [OF e a,
      of "''import x from y'' @ [CHR 0x0A] @ ''type Foo = number''"] b
  show ?thesis by (simp only: simp_thms)
qed

text \<open>
  C5 as stated fails in the mode exports: for a file with the extension \<open>.txt\<close> and the
  text \<open>export const x = 1\<close>, the unknown language gives no record and typescript gives
  one.
\<close>

theorem C5_exports_counterexample:
  "LANGUAGE_MAP (toLowerCase ''.txt'') = None
   \<and> extractCode ''export const x = 1'' (Some Exports) None ''.txt'' = Inr []
   \<and> extractCode ''export const x = 1'' (Some Exports) (Some ''typescript'') ''.txt''
     = Inr [\<lparr>type = ''export'', name = ''export const x = 1'', line = 1,
              signature = ''export const x = 1''\<rparr>]"
  by code_simp

text \<open>
  In the mode structure the type tag differs as well: the line \<open>type Foo = number\<close> is
  tagged \<open>type\<close> for typescript and \<open>method\<close> for the unknown language.
\<close>

lemma structure_type_tag_example:
  "extractCode ''type Foo = number'' (Some Structure) None ''.txt''
     = Inr [\<lparr>type = ''method'', name = ''Foo'', line = 1, signature = ''type Foo = number''\<rparr>]
   \<and> extractCode ''type Foo = number'' (Some Structure) (Some ''typescript'') ''.txt''
     = Inr [\<lparr>type = ''type'', name = ''Foo'', line = 1, signature = ''type Foo = number''\<rparr>]"
  by code_simp

text \<open>
  A language hint that names an inherited property: the tables of the modes structure and
  imports find that property and the extraction fails with a \<open>TypeError\<close>.
\<close>

lemma inherited_language_hint:
  "extractCode content (Some Structure) (Some ''constructor'') ext = Inl TypeError
   \<and> extractCode content (Some Imports) (Some ''constructor'') ext = Inl TypeError"
  by (simp add: extractCode_def resolveLanguage_def extractStructure_def extractImports_def
        readTable_def patterns_def importPatterns_def objectPrototypeNames_def)

section \<open>Plain-text converter\<close>

text \<open>
  \<open>htmlToText\<close>: the chain of \<open>replace\<close> calls, in order, as (pattern, replacement)
  pairs, then \<open>trim\<close>. The first seven patterns and no others carry the \<open>i\<close> flag.
\<close>

definition tagRe :: re where
  "tagRe = seqs [Lit ''<'', Many (NotChars ''>'') 1, Lit ''>'']"

definition htmlRules :: "(re \<times> string) list" where
  "htmlRules =
    [(seqs [LitI ''<br'', Many Space 0, Opt (Lit ''/''), Lit ''>''], [CHR 0x0A]),
     (LitI ''</p>'', [CHR 0x0A, CHR 0x0A]),
     (LitI ''</div>'', [CHR 0x0A]),
     (LitI ''</li>'', [CHR 0x0A]),
     (seqs [LitI ''<li'', Many (NotChars ''>'') 0, Lit ''>''], ''- ''),
     (LitI ''</tr>'', [CHR 0x0A]),
     (LitI ''</td>'', [CHR 0x09]),
     (tagRe, []),
     (Lit ''&amp;'', ''&''),
     (Lit ''&lt;'', ''<''),
     (Lit ''&gt;'', ''>''),
     (Lit ''&quot;'', [CHR 0x22]),
     (Lit ''&#39;'', [CHR 0x27]),
     (Lit ''&nbsp;'', '' ''),
     (Many (Chars [CHR '' '', CHR 0x09]) 1, '' ''),
     (Many (Chars [CHR 0x0A]) 3, [CHR 0x0A, CHR 0x0A])]"

definition htmlToText :: "string \<Rightarrow> string" where
  "htmlToText html = trim (fold (\<lambda>(r, s) x. replaceAll r (\<lambda>m cs. s) x) htmlRules html)"

definition namedEntities :: "string list" where
  "namedEntities = [''&amp;'', ''&lt;'', ''&gt;'', ''&quot;'', ''&#39;'', ''&nbsp;'']"


subsection \<open>Every tag pattern matches a tag-shaped text\<close>

lemma tryLongest_first:
  "n \<le> J \<Longrightarrow> k (drop J inp) cs = Some r \<Longrightarrow> tryLongest J n inp cs k = Some r"
  by (cases J) auto

lemma asciiLower_fixed:
  assumes "asciiLower x = y" and "\<not> (97 \<le> (of_char y :: nat) \<and> (of_char y :: nat) \<le> 122)"
  shows "x = y"
proof (cases "65 \<le> (of_char x :: nat) \<and> (of_char x :: nat) \<le> 90")
  case True
  then have "y = char_of ((of_char x :: nat) + 32)" using assms(1) by (simp add: asciiLower_def Let_def)
  then have "(of_char y :: nat) = ((of_char x :: nat) + 32) mod 256" by simp
  with True have "(of_char y :: nat) = (of_char x :: nat) + 32" by simp
  with True assms(2) show ?thesis by simp
next
  case False
  then show ?thesis using assms(1) by (auto simp: asciiLower_def Let_def)
qed

lemma asciiLower_lt: "asciiLower x = CHR ''<'' \<Longrightarrow> x = CHR ''<''"
  by (rule asciiLower_fixed) simp_all

lemma asciiLower_gt: "asciiLower x = CHR ''>'' \<Longrightarrow> x = CHR ''>''"
  by (rule asciiLower_fixed) simp_all

lemma asciiLower_slash: "asciiLower x = CHR ''/'' \<Longrightarrow> x = CHR ''/''"
  by (rule asciiLower_fixed) simp_all

lemma asciiLower_of_gt: "asciiLower (CHR ''>'') = CHR ''>''"
  by (simp add: asciiLower_def Let_def)

definition tagShaped :: "string \<Rightarrow> bool" where
  "tagShaped m = (\<exists>c w. m = CHR ''<'' # c # w @ ''>'' \<and> c \<noteq> CHR ''>'')"

lemma map_lower_ends_gt:
  "map asciiLower w = v @ ''>'' \<Longrightarrow> \<exists>w'. w = w' @ ''>''"
proof -
  assume a: "map asciiLower w = v @ ''>''"
  then have ne: "w \<noteq> []" by auto
  then have "map asciiLower w = map asciiLower (butlast w) @ [asciiLower (last w)]"
    by (metis append_butlast_last_id list.simps(8,9) map_append)
  with a have "asciiLower (last w) = CHR ''>''" by simp
  then have "last w = CHR ''>''" by (rule asciiLower_gt)
  with ne have "w = butlast w @ ''>''" by (metis append_butlast_last_id)
  then show ?thesis by blast
qed

lemma litI_close_tag:
  assumes "m \<in> lang (LitI (CHR ''<'' # CHR ''/'' # nm @ ''>''))"
  shows "tagShaped m"
proof -
  from assms have e: "map asciiLower m = asciiLower (CHR ''<'') # asciiLower (CHR ''/'') # map asciiLower nm @ [asciiLower (CHR ''>'')]"
    by simp
  then obtain a b w where m: "m = a # b # w" by (cases m; cases "tl m") auto
  have l: "asciiLower (CHR ''<'') = CHR ''<''" "asciiLower (CHR ''/'') = CHR ''/''"
    "asciiLower (CHR ''>'') = CHR ''>''" by (simp_all add: asciiLower_def Let_def)
  from e m l have a: "asciiLower a = CHR ''<''" and b: "asciiLower b = CHR ''/''"
    and w: "map asciiLower w = map asciiLower nm @ ''>''"
    by simp_all
  from a have a': "a = CHR ''<''" by (rule asciiLower_lt)
  from b have b': "b = CHR ''/''" by (rule asciiLower_slash)
  from map_lower_ends_gt [OF w] obtain w' where "w = w' @ ''>''" by blast
  with m a' b' have "m = CHR ''<'' # CHR ''/'' # w' @ ''>'' \<and> CHR ''/'' \<noteq> CHR ''>''" by simp
  then show ?thesis unfolding tagShaped_def by blast
qed

lemma tagRe_matches:
  assumes "c \<noteq> CHR ''>''" and "CHR ''>'' \<in> set u"
  shows "reExec tagRe (CHR ''<'' # c # u) \<noteq> None"
proof -
  let ?P = "inClass (NotChars ''>'')"
  have "drop (length (takeWhile ?P u)) u = dropWhile ?P u" by (rule dropWhile_eq_drop [symmetric])
  moreover have ne: "dropWhile ?P u \<noteq> []" using assms(2) by (auto simp: dropWhile_eq_Nil_conv)
  then have "\<not> ?P (hd (dropWhile ?P u))" by (rule hd_dropWhile)
  then have "prefix ''>'' (dropWhile ?P u)"
    using ne by (cases "dropWhile ?P u") auto
  ultimately have d: "prefix ''>'' (drop (length (takeWhile ?P u)) u)" by simp
  show ?thesis using assms(1) d by (simp add: reExec_def tagRe_def)
qed


lemma tagShaped_matches:
  assumes "\<And>m. m \<in> lang r \<Longrightarrow> tagShaped m" and "reExec r t \<noteq> None"
  shows "reExec tagRe t \<noteq> None"
proof -
  from assms(2) obtain m cs where "reExec r t = Some (m, cs)" by auto
  from reExec_sound [OF this] obtain rest where m: "m \<in> lang r" and t: "t = m @ rest" by blast
  from assms(1) [OF m] obtain c w where "m = CHR ''<'' # c # w @ ''>''" and c: "c \<noteq> CHR ''>''"
    unfolding tagShaped_def by blast
  with t have t': "t = CHR ''<'' # c # (w @ ''>'' @ rest)" by simp
  have mem: "CHR ''>'' \<in> set (w @ ''>'' @ rest)" by simp
  have "reExec tagRe (CHR ''<'' # c # (w @ ''>'' @ rest)) \<noteq> None"
    using c mem by (rule tagRe_matches)
  then show ?thesis unfolding t' .
qed

lemma open_tag_shape:
  assumes "map asciiLower u = CHR ''<'' # l # nm" and "l \<noteq> CHR ''>''"
  shows "tagShaped (u @ v @ ''>'')"
proof -
  from assms(1) obtain a b w where u: "u = a # b # w" by (cases u; cases "tl u") auto
  with assms(1) have "asciiLower a = CHR ''<''" and b: "asciiLower b = l" by simp_all
  then have a: "a = CHR ''<''" using asciiLower_lt by blast
  have "b \<noteq> CHR ''>''" using b assms(2) asciiLower_of_gt by auto
  with u a have "u @ v @ ''>'' = CHR ''<'' # b # (w @ v) @ ''>'' \<and> b \<noteq> CHR ''>''" by simp
  then show ?thesis unfolding tagShaped_def by blast
qed

lemma lang_Seq_iff: "m \<in> lang (Seq a b) \<longleftrightarrow> (\<exists>u v. m = u @ v \<and> u \<in> lang a \<and> v \<in> lang b)"
  by simp

lemma lang_LitI_iff: "u \<in> lang (LitI s) \<longleftrightarrow> map asciiLower u = map asciiLower s"
  by simp

lemma lang_Lit_iff: "u \<in> lang (Lit s) \<longleftrightarrow> u = s"
  by simp

lemma open_tag_lang:
  assumes "m \<in> lang (Seq (LitI s) (Seq A (Lit ''>'')))"
  shows "\<exists>u v. m = u @ v @ ''>'' \<and> map asciiLower u = map asciiLower s"
proof -
  from assms obtain u w where m: "m = u @ w" and u: "u \<in> lang (LitI s)"
    and w: "w \<in> lang (Seq A (Lit ''>''))"
    unfolding lang_Seq_iff [of m] by (elim exE conjE)
  from w obtain v x where "w = v @ x" and "x \<in> lang (Lit ''>'')"
    unfolding lang_Seq_iff [of w] by (elim exE conjE)
  then have "w = v @ ''>''" unfolding lang_Lit_iff by (simp only:)
  with m have "m = u @ v @ ''>''" by (simp only:)
  moreover from u have "map asciiLower u = map asciiLower s" unfolding lang_LitI_iff .
  ultimately show ?thesis by (intro exI conjI)
qed

lemma open_tag_lang':
  assumes "m \<in> lang (Seq (LitI s) (Seq A (Seq B (Lit ''>''))))"
  shows "\<exists>u v. m = u @ v @ ''>'' \<and> map asciiLower u = map asciiLower s"
proof -
  from assms obtain u w where m: "m = u @ w" and u: "u \<in> lang (LitI s)"
    and w: "w \<in> lang (Seq A (Seq B (Lit ''>'')))"
    unfolding lang_Seq_iff [of m] by (elim exE conjE)
  from w obtain a x where wa: "w = a @ x" and x: "x \<in> lang (Seq B (Lit ''>''))"
    unfolding lang_Seq_iff [of w] by (elim exE conjE)
  from x obtain b y where "x = b @ y" and "y \<in> lang (Lit ''>'')"
    unfolding lang_Seq_iff [of x] by (elim exE conjE)
  then have "x = b @ ''>''" unfolding lang_Lit_iff by (simp only:)
  with wa m have "m = u @ (a @ b) @ ''>''" by (simp only: append_assoc)
  moreover from u have "map asciiLower u = map asciiLower s" unfolding lang_LitI_iff .
  ultimately show ?thesis by (intro exI conjI)
qed

lemma br_tag_shape:
  assumes "m \<in> lang (seqs [LitI ''<br'', Many Space 0, Opt (Lit ''/''), Lit ''>''])"
  shows "tagShaped m"
proof -
  from assms have "m \<in> lang (Seq (LitI ''<br'') (Seq (Many Space 0) (Seq (Opt (Lit ''/'')) (Lit ''>''))))"
    by simp
  from open_tag_lang' [OF this] obtain u v where m: "m = u @ v @ ''>''"
    and u: "map asciiLower u = map asciiLower ''<br''" by blast
  have "map asciiLower ''<br'' = CHR ''<'' # CHR ''b'' # ''r''"
    by (simp add: asciiLower_def Let_def)
  with u have "map asciiLower u = CHR ''<'' # CHR ''b'' # ''r''" by simp
  from open_tag_shape [OF this, of v] m show ?thesis by simp
qed

lemma li_tag_shape:
  assumes "m \<in> lang (seqs [LitI ''<li'', Many (NotChars ''>'') 0, Lit ''>''])"
  shows "tagShaped m"
proof -
  from assms have "m \<in> lang (Seq (LitI ''<li'') (Seq (Many (NotChars ''>'') 0) (Lit ''>'')))"
    by simp
  from open_tag_lang [OF this] obtain u v where m: "m = u @ v @ ''>''"
    and u: "map asciiLower u = map asciiLower ''<li''" by blast
  have "map asciiLower ''<li'' = CHR ''<'' # CHR ''l'' # ''i''"
    by (simp add: asciiLower_def Let_def)
  with u have "map asciiLower u = CHR ''<'' # CHR ''l'' # ''i''" by simp
  from open_tag_shape [OF this, of v] m show ?thesis by simp
qed

definition markupRules :: "(re \<times> string) list" where
  "markupRules = take 14 htmlRules"

lemma markupRules_eq:
  "markupRules =
    [(seqs [LitI ''<br'', Many Space 0, Opt (Lit ''/''), Lit ''>''], [CHR 0x0A]),
     (LitI ''</p>'', [CHR 0x0A, CHR 0x0A]),
     (LitI ''</div>'', [CHR 0x0A]),
     (LitI ''</li>'', [CHR 0x0A]),
     (seqs [LitI ''<li'', Many (NotChars ''>'') 0, Lit ''>''], ''- ''),
     (LitI ''</tr>'', [CHR 0x0A]),
     (LitI ''</td>'', [CHR 0x09]),
     (tagRe, []),
     (Lit ''&amp;'', ''&''),
     (Lit ''&lt;'', ''<''),
     (Lit ''&gt;'', ''>''),
     (Lit ''&quot;'', [CHR 0x22]),
     (Lit ''&#39;'', [CHR 0x27]),
     (Lit ''&nbsp;'', '' '')]"
  unfolding markupRules_def htmlRules_def by simp

lemma htmlRules_split:
  "htmlRules = markupRules @ [(Many (Chars [CHR '' '', CHR 0x09]) 1, '' ''),
                              (Many (Chars [CHR 0x0A]) 3, [CHR 0x0A, CHR 0x0A])]"
  unfolding markupRules_eq unfolding htmlRules_def by simp

lemma close_tag_matches:
  "reExec (LitI (CHR ''<'' # CHR ''/'' # nm @ ''>'')) t \<noteq> None \<Longrightarrow> reExec tagRe t \<noteq> None"
  by (rule tagShaped_matches [where r = "LitI (CHR ''<'' # CHR ''/'' # nm @ ''>'')"])
     (rule litI_close_tag)

lemmas close_tags_match =
  close_tag_matches [of "''p''", unfolded append.simps]
  close_tag_matches [of "''div''", unfolded append.simps]
  close_tag_matches [of "''li''", unfolded append.simps]
  close_tag_matches [of "''tr''", unfolded append.simps]
  close_tag_matches [of "''td''", unfolded append.simps]

lemma markup_fold_id:
  assumes tag: "\<not> hasMatch tagRe y" and ent: "\<forall>e \<in> set namedEntities. \<not> str_includes y e"
  shows "fold (\<lambda>(r, s) x. replaceAll r (\<lambda>m cs. s) x) markupRules y = y"
proof -
  have T: "replaceAll r f y = y" if "\<And>t. reExec r t \<noteq> None \<Longrightarrow> reExec tagRe t \<noteq> None" for r f
  proof (rule replaceAll_no_match)
    show "\<not> hasMatch r y" using tag hasMatch_mono [of r tagRe y] that by blast
  qed
  have E: "replaceAll (Lit e) f y = y" if "e \<in> set namedEntities" for e f
  proof (rule replaceAll_no_match)
    show "\<not> hasMatch (Lit e) y" using ent that by (simp only: hasMatch_Lit) blast
  qed
  have 1: "replaceAll (seqs [LitI ''<br'', Many Space 0, Opt (Lit ''/''), Lit ''>'']) f y = y" for f
    by (rule T) (rule tagShaped_matches [OF br_tag_shape])
  have 2: "replaceAll (LitI ''</p>'') f y = y" for f by (rule T) (rule close_tags_match)
  have 3: "replaceAll (LitI ''</div>'') f y = y" for f by (rule T) (rule close_tags_match)
  have 4: "replaceAll (LitI ''</li>'') f y = y" for f by (rule T) (rule close_tags_match)
  have 5: "replaceAll (seqs [LitI ''<li'', Many (NotChars ''>'') 0, Lit ''>'']) f y = y" for f
    by (rule T) (rule tagShaped_matches [OF li_tag_shape])
  have 6: "replaceAll (LitI ''</tr>'') f y = y" for f by (rule T) (rule close_tags_match)
  have 7: "replaceAll (LitI ''</td>'') f y = y" for f by (rule T) (rule close_tags_match)
  have 8: "replaceAll tagRe f y = y" for f using tag by (rule replaceAll_no_match)
  have 9: "replaceAll (Lit ''&amp;'') f y = y" for f by (rule E) (simp add: namedEntities_def)
  have 10: "replaceAll (Lit ''&lt;'') f y = y" for f by (rule E) (simp add: namedEntities_def)
  have 11: "replaceAll (Lit ''&gt;'') f y = y" for f by (rule E) (simp add: namedEntities_def)
  have 12: "replaceAll (Lit ''&quot;'') f y = y" for f by (rule E) (simp add: namedEntities_def)
  have 13: "replaceAll (Lit ''&#39;'') f y = y" for f by (rule E) (simp add: namedEntities_def)
  have 14: "replaceAll (Lit ''&nbsp;'') f y = y" for f by (rule E) (simp add: namedEntities_def)
  show ?thesis
    unfolding markupRules_eq
    by (simp only: fold_simps case_prod_conv 1 2 3 4 5 6 7 8 9 10 11 12 13 14)
qed

subsection \<open>White space after the first pass\<close>

lemma tryLongest_total:
  "k (drop J inp) cs = Some r \<Longrightarrow> tryLongest J n inp cs k = (if n \<le> J then Some r else None)"
  by (cases J) auto

lemma reExec_Many:
  "reExec (Many c n) t =
     (if n \<le> length (takeWhile (inClass c) t) then Some (takeWhile (inClass c) t, []) else None)"
proof -
  let ?J = "length (takeWhile (inClass c) t)"
  let ?k = "\<lambda>rest (cs :: caps). Some (take (length t - length rest) t, cs)"
  have "?J \<le> length t" by (rule length_takeWhile_le)
  then have "take (length t - length (drop ?J t)) t = take ?J t" by simp
  also have "\<dots> = takeWhile (inClass c) t" by (rule takeWhile_eq_take [symmetric])
  finally have "?k (drop ?J t) [] = Some (takeWhile (inClass c) t, [])" by simp
  from tryLongest_total [where k = ?k and J = ?J and inp = t and cs = "[]" and n = n, OF this]
  show ?thesis by (simp add: reExec_def)
qed

definition blankRe :: re where
  "blankRe = Many (Chars [CHR '' '', CHR 0x09]) 1"

definition newlinesRe :: re where
  "newlinesRe = Many (Chars [CHR 0x0A]) 3"

text \<open>No tab and no two spaces in a row; no three newlines in a row.\<close>

definition squeezed :: "string \<Rightarrow> bool" where
  "squeezed s = (CHR 0x09 \<notin> set s \<and> \<not> str_includes s ''  '')"

definition noBlankRun :: "string \<Rightarrow> bool" where
  "noBlankRun s = (\<not> str_includes s [CHR 0x0A, CHR 0x0A, CHR 0x0A])"

lemma str_includes_sublist: "str_includes s t = sublist t s"
  by (induction s) (simp_all add: sublist_Cons_right)

lemma squeezed_Cons:
  "squeezed (c # s) \<longleftrightarrow> c \<noteq> CHR 0x09 \<and> \<not> (c = CHR '' '' \<and> prefix '' '' s) \<and> squeezed s"
  by (auto simp: squeezed_def)

lemma squeezed_Nil: "squeezed []"
  by (simp add: squeezed_def)

lemma squeezed_suffix: "squeezed (a @ b) \<Longrightarrow> squeezed b"
  by (induction a) (simp_all add: squeezed_Cons)

lemma dropWhile_not_prefix: "P c \<Longrightarrow> \<not> prefix [c] (dropWhile P s)"
  by (induction s) auto

lemma blank_match:
  "reExec blankRe (c # s) =
     (if c = CHR '' '' \<or> c = CHR 0x09
      then Some (c # takeWhile (inClass (Chars [CHR '' '', CHR 0x09])) s, [])
      else None)"
  by (simp add: blankRe_def reExec_Many)

lemma blank_squeeze:
  "squeezed (replaceAll blankRe (\<lambda>m cs. '' '') z)
   \<and> (prefix '' '' (replaceAll blankRe (\<lambda>m cs. '' '') z)
        \<longrightarrow> prefix '' '' z \<or> prefix [CHR 0x09] z)"
proof (induction z rule: length_induct)
  case (1 z)
  let ?R = "replaceAll blankRe (\<lambda>m cs. '' '')"
  let ?B = "inClass (Chars [CHR '' '', CHR 0x09])"
  show ?case
  proof (cases z)
    case Nil
    have "reExec blankRe [] = None" by (simp add: blankRe_def reExec_Many)
    with Nil show ?thesis by (simp add: squeezed_Nil)
  next
    case (Cons c s)
    show ?thesis
    proof (cases "c = CHR '' '' \<or> c = CHR 0x09")
      case True
      let ?rest = "dropWhile ?B s"
      have d: "drop (length (takeWhile ?B s)) s = ?rest" by (rule dropWhile_eq_drop [symmetric])
      have out: "?R z = CHR '' '' # ?R ?rest"
        using Cons True d by (simp add: blank_match)
      have "length ?rest < length z" using Cons length_dropWhile_le [of ?B s] by simp
      with 1 have ih: "squeezed (?R ?rest)"
        "prefix '' '' (?R ?rest) \<longrightarrow> prefix '' '' ?rest \<or> prefix [CHR 0x09] ?rest"
        by blast+
      have "\<not> (prefix '' '' ?rest \<or> prefix [CHR 0x09] ?rest)"
        using dropWhile_not_prefix [of ?B "CHR '' ''" s] dropWhile_not_prefix [of ?B "CHR 0x09" s]
        by simp
      with ih have "\<not> prefix '' '' (?R ?rest)" by blast
      with ih(1) have "squeezed (CHR '' '' # ?R ?rest)" by (simp add: squeezed_Cons)
      with out Cons True show ?thesis by auto
    next
      case False
      then have out: "?R z = c # ?R s" using Cons by (simp add: blank_match)
      have "length s < length z" using Cons by simp
      with 1 have ih: "squeezed (?R s)" by blast
      from False ih have "squeezed (c # ?R s)" by (simp add: squeezed_Cons)
      with out False show ?thesis by auto
    qed
  qed
qed

lemma newline_match:
  "reExec newlinesRe (c # s) =
     (if 3 \<le> length (takeWhile (\<lambda>x. x = CHR 0x0A) (c # s))
      then Some (takeWhile (\<lambda>x. x = CHR 0x0A) (c # s), [])
      else None)"
  by (simp add: newlinesRe_def reExec_Many inClass.simps [abs_def])

lemma takeWhile_dropWhile_Nil: "takeWhile P (dropWhile P s) = []"
  by (induction s) auto

lemma three_newlines:
  "prefix [CHR 0x0A, CHR 0x0A, CHR 0x0A] s \<longleftrightarrow> 3 \<le> length (takeWhile (\<lambda>x. x = CHR 0x0A) s)"
proof (cases s)
  case Nil
  then show ?thesis by simp
next
  case s1: (Cons a s')
  show ?thesis
  proof (cases s')
    case Nil
    with s1 show ?thesis by simp
  next
    case s2: (Cons b s'')
    show ?thesis
    proof (cases s'')
      case Nil
      with s1 s2 show ?thesis by simp
    next
      case (Cons c s''')
      with s1 s2 show ?thesis by auto
    qed
  qed
qed

lemma noBlankRun_Cons:
  "noBlankRun (c # s) \<longleftrightarrow>
     \<not> 3 \<le> length (takeWhile (\<lambda>x. x = CHR 0x0A) (c # s)) \<and> noBlankRun s"
  unfolding noBlankRun_def str_includes.simps three_newlines by blast

lemma noBlankRun_Nil: "noBlankRun []"
  by (simp add: noBlankRun_def)

lemma noBlankRun_suffix: "noBlankRun (a @ b) \<Longrightarrow> noBlankRun b"
  by (induction a) (simp_all only: append.simps noBlankRun_Cons)

lemma newlines_collapse:
  "noBlankRun (replaceAll newlinesRe (\<lambda>m cs. [CHR 0x0A, CHR 0x0A]) z)
   \<and> length (takeWhile (\<lambda>x. x = CHR 0x0A) (replaceAll newlinesRe (\<lambda>m cs. [CHR 0x0A, CHR 0x0A]) z))
       \<le> length (takeWhile (\<lambda>x. x = CHR 0x0A) z)
   \<and> length (takeWhile (\<lambda>x. x = CHR 0x0A) (replaceAll newlinesRe (\<lambda>m cs. [CHR 0x0A, CHR 0x0A]) z))
       \<le> 2"
proof (induction z rule: length_induct)
  case (1 z)
  let ?R = "replaceAll newlinesRe (\<lambda>m cs. [CHR 0x0A, CHR 0x0A])"
  let ?N = "\<lambda>x. x = CHR 0x0A"
  show ?case
  proof (cases z)
    case Nil
    have "reExec newlinesRe [] = None" by (simp add: newlinesRe_def reExec_Many)
    with Nil show ?thesis by (simp add: noBlankRun_Nil)
  next
    case (Cons c s)
    show ?thesis
    proof (cases "3 \<le> length (takeWhile ?N (c # s))")
      case True
      then have c: "c = CHR 0x0A" by (cases "c = CHR 0x0A") simp_all
      let ?rest = "dropWhile ?N s"
      have d: "drop (length (takeWhile ?N s)) s = ?rest" by (rule dropWhile_eq_drop [symmetric])
      have out: "?R z = CHR 0x0A # CHR 0x0A # ?R ?rest"
        using Cons True c d by (simp add: newline_match)
      have "length ?rest < length z" using Cons length_dropWhile_le [of ?N s] by simp
      with 1 have ih: "noBlankRun (?R ?rest)"
        "length (takeWhile ?N (?R ?rest)) \<le> length (takeWhile ?N ?rest)"
        by blast+
      from ih(2) have z: "takeWhile ?N (?R ?rest) = []"
        by (simp add: takeWhile_dropWhile_Nil)
      have "noBlankRun (CHR 0x0A # CHR 0x0A # ?R ?rest)"
        using ih(1) z by (simp add: noBlankRun_Cons)
      moreover have "length (takeWhile ?N (CHR 0x0A # CHR 0x0A # ?R ?rest)) = 2"
        using z by simp
      ultimately show ?thesis unfolding out using True Cons by simp
    next
      case False
      then have out: "?R z = c # ?R s" using Cons by (simp add: newline_match)
      have "length s < length z" using Cons by simp
      with 1 have ih: "noBlankRun (?R s)"
        "length (takeWhile ?N (?R s)) \<le> length (takeWhile ?N s)"
        by blast+
      have le: "length (takeWhile ?N (c # ?R s)) \<le> length (takeWhile ?N (c # s))"
        using ih(2) by simp
      with False have "\<not> 3 \<le> length (takeWhile ?N (c # ?R s))" by simp
      with ih(1) have nb: "noBlankRun (c # ?R s)" by (simp only: noBlankRun_Cons simp_thms)
      from le False have "length (takeWhile ?N (c # ?R s)) \<le> 2" by simp
      with nb le show ?thesis unfolding out unfolding Cons by (simp only: simp_thms)
    qed
  qed
qed

lemma newlines_keep_squeezed:
  "squeezed z \<longrightarrow>
     squeezed (replaceAll newlinesRe (\<lambda>m cs. [CHR 0x0A, CHR 0x0A]) z)
     \<and> (prefix '' '' (replaceAll newlinesRe (\<lambda>m cs. [CHR 0x0A, CHR 0x0A]) z) \<longrightarrow> prefix '' '' z)"
proof (induction z rule: length_induct)
  case (1 z)
  let ?R = "replaceAll newlinesRe (\<lambda>m cs. [CHR 0x0A, CHR 0x0A])"
  let ?N = "\<lambda>x. x = CHR 0x0A"
  show ?case
  proof (cases z)
    case Nil
    have "reExec newlinesRe [] = None" by (simp add: newlinesRe_def reExec_Many)
    with Nil show ?thesis by simp
  next
    case (Cons c s)
    show ?thesis
    proof (intro impI)
      assume sq: "squeezed z"
      show "squeezed (?R z) \<and> (prefix '' '' (?R z) \<longrightarrow> prefix '' '' z)"
      proof (cases "3 \<le> length (takeWhile ?N (c # s))")
        case True
        then have c: "c = CHR 0x0A" by (cases "c = CHR 0x0A") simp_all
        let ?rest = "dropWhile ?N s"
        have d: "drop (length (takeWhile ?N s)) s = ?rest" by (rule dropWhile_eq_drop [symmetric])
        have out: "?R z = CHR 0x0A # CHR 0x0A # ?R ?rest"
          using Cons True c d by (simp add: newline_match)
        have "z = (c # takeWhile ?N s) @ ?rest" using Cons by simp
        with sq have "squeezed ?rest" using squeezed_suffix by metis
        moreover have "length ?rest < length z" using Cons length_dropWhile_le [of ?N s] by simp
        ultimately have "squeezed (?R ?rest)" using 1 by blast
        then show ?thesis unfolding out by (simp add: squeezed_Cons)
      next
        case False
        then have out: "?R z = c # ?R s" using Cons by (simp add: newline_match)
        from sq Cons have c: "c \<noteq> CHR 0x09" "\<not> (c = CHR '' '' \<and> prefix '' '' s)" "squeezed s"
          by (simp_all add: squeezed_Cons)
        have "length s < length z" using Cons by simp
        with 1 c(3) have ih: "squeezed (?R s)" "prefix '' '' (?R s) \<longrightarrow> prefix '' '' s"
          by blast+
        from c ih have "squeezed (c # ?R s)" by (auto simp: squeezed_Cons)
        then show ?thesis unfolding out unfolding Cons by simp
      qed
    qed
  qed
qed

subsection \<open>Trimming\<close>

lemma rev_split: "xs = rev (dropWhile P (rev xs)) @ rev (takeWhile P (rev xs))"
proof -
  have "rev (takeWhile P (rev xs) @ dropWhile P (rev xs))
      = rev (dropWhile P (rev xs)) @ rev (takeWhile P (rev xs))"
    by (rule rev_append)
  moreover have "takeWhile P (rev xs) @ dropWhile P (rev xs) = rev xs"
    by (rule takeWhile_dropWhile_id)
  ultimately have "rev (rev xs) = rev (dropWhile P (rev xs)) @ rev (takeWhile P (rev xs))"
    by (simp only:)
  then show ?thesis by (simp only: rev_rev_ident)
qed

lemma trim_factor: "\<exists>a b. s = a @ trim s @ b"
proof -
  let ?s' = "dropWhile isSpace s"
  have "?s' = trim s @ rev (takeWhile isSpace (rev ?s'))"
    unfolding trim_def by (rule rev_split)
  moreover have "s = takeWhile isSpace s @ ?s'" by simp
  ultimately have "s = takeWhile isSpace s @ trim s @ rev (takeWhile isSpace (rev ?s'))"
    by (simp only:)
  then show ?thesis by blast
qed

lemma str_includes_factor: "str_includes b t \<Longrightarrow> str_includes (a @ b @ c) t"
  unfolding str_includes_sublist by (auto simp: sublist_def) (metis append.assoc)

lemma squeezed_factor: "squeezed (a @ b @ c) \<Longrightarrow> squeezed b"
  unfolding squeezed_def using str_includes_factor by auto

lemma noBlankRun_factor: "noBlankRun (a @ b @ c) \<Longrightarrow> noBlankRun b"
  unfolding noBlankRun_def using str_includes_factor by auto

lemma dropWhile_unchanged: "(s \<noteq> [] \<Longrightarrow> \<not> P (hd s)) \<Longrightarrow> dropWhile P s = s"
  by (cases s) auto

lemma trim_trim: "trim (trim s) = trim s"
proof -
  let ?s' = "dropWhile isSpace s"
  let ?w = "dropWhile isSpace (rev ?s')"
  have u: "trim s = rev ?w" by (simp add: trim_def)
  have b: "dropWhile isSpace ?w = ?w"
    by (rule dropWhile_unchanged) (rule hd_dropWhile)
  have a: "dropWhile isSpace (rev ?w) = rev ?w"
  proof (rule dropWhile_unchanged)
    assume ne: "rev ?w \<noteq> []"
    have s': "?s' = rev ?w @ rev (takeWhile isSpace (rev ?s'))" by (rule rev_split)
    with ne have "hd ?s' = hd (rev ?w)" by (metis hd_append2)
    moreover from s' ne have "?s' \<noteq> []" by (metis append_is_Nil_conv)
    then have "\<not> isSpace (hd ?s')" by (rule hd_dropWhile)
    ultimately show "\<not> isSpace (hd (rev ?w))" by simp
  qed
  have "trim (rev ?w) = rev (dropWhile isSpace (rev (dropWhile isSpace (rev ?w))))"
    by (simp only: trim_def)
  also have "\<dots> = rev (dropWhile isSpace (rev (rev ?w)))" by (simp only: a)
  also have "\<dots> = rev ?w" by (simp only: rev_rev_ident b)
  finally show ?thesis unfolding u .
qed

subsection \<open>The second pass\<close>

lemma blank_fixed:
  assumes "squeezed y"
  shows "replaceAll blankRe (\<lambda>m cs. '' '') y = y"
proof (rule replaceAll_fixed)
  fix t m cs
  assume sfx: "suffix t y" and ex: "reExec blankRe t = Some (m, cs)"
  from sfx obtain a where "y = a @ t" by (auto simp: suffix_def)
  with assms have sq: "squeezed t" using squeezed_suffix by metis
  have "reExec blankRe [] = None" by (simp add: blankRe_def reExec_Many)
  with ex obtain c s where t: "t = c # s" by (cases t) auto
  from sq t have c: "c \<noteq> CHR 0x09" "\<not> (c = CHR '' '' \<and> prefix '' '' s)" "squeezed s"
    by (simp_all add: squeezed_Cons)
  from ex t c(1) have cs: "c = CHR '' ''"
    and m: "m = c # takeWhile (inClass (Chars [CHR '' '', CHR 0x09])) s"
    by (auto simp: blank_match split: if_splits)
  have "takeWhile (inClass (Chars [CHR '' '', CHR 0x09])) s = []"
  proof (cases s)
    case Nil
    then show ?thesis by simp
  next
    case (Cons x xs)
    with c(2) cs have "x \<noteq> CHR '' ''" by simp
    moreover from c(3) Cons have "x \<noteq> CHR 0x09" by (simp add: squeezed_Cons)
    ultimately show ?thesis using Cons by simp
  qed
  with m cs show "'' '' = m \<and> m \<noteq> []" by simp
qed

lemma newlines_fixed:
  assumes "noBlankRun y"
  shows "replaceAll newlinesRe f y = y"
proof (rule replaceAll_no_match)
  show "\<not> hasMatch newlinesRe y"
  proof
    assume "hasMatch newlinesRe y"
    then obtain t where sfx: "suffix t y" and ex: "reExec newlinesRe t \<noteq> None"
      by (induction y) (auto simp: suffix_Cons)
    from sfx obtain a where "y = a @ t" by (auto simp: suffix_def)
    with assms have nb: "noBlankRun t" using noBlankRun_suffix by metis
    have "reExec newlinesRe [] = None" by (simp add: newlinesRe_def reExec_Many)
    with ex obtain c s where t: "t = c # s" by (cases t) auto
    from ex t have "3 \<le> length (takeWhile (\<lambda>x. x = CHR 0x0A) (c # s))"
      by (auto simp: newline_match split: if_splits)
    with nb t show False by (simp only: noBlankRun_Cons simp_thms)
  qed
qed

lemma first_pass_shape:
  "squeezed (htmlToText x) \<and> noBlankRun (htmlToText x)"
proof -
  let ?F = "\<lambda>(r, s) x. replaceAll r (\<lambda>m cs. s) x"
  let ?v = "fold ?F markupRules x"
  let ?b = "replaceAll blankRe (\<lambda>m cs. '' '') ?v"
  let ?w = "replaceAll newlinesRe (\<lambda>m cs. [CHR 0x0A, CHR 0x0A]) ?b"
  have w: "fold ?F htmlRules x = ?w"
    unfolding htmlRules_split blankRe_def newlinesRe_def by simp
  have "squeezed ?b" using blank_squeeze [of ?v] by (rule conjunct1)
  with newlines_keep_squeezed [of ?b] have sq: "squeezed ?w" by blast
  have nb: "noBlankRun ?w" using newlines_collapse [of ?b] by (rule conjunct1)
  obtain a b where f: "?w = a @ trim ?w @ b" using trim_factor [of ?w] by blast
  from sq have "squeezed (a @ trim ?w @ b)" by (simp only: f [symmetric])
  then have 1: "squeezed (trim ?w)" by (rule squeezed_factor)
  from nb have "noBlankRun (a @ trim ?w @ b)" by (simp only: f [symmetric])
  then have 2: "noBlankRun (trim ?w)" by (rule noBlankRun_factor)
  from 1 2 show ?thesis unfolding htmlToText_def w by (rule conjI)
qed

text \<open>
  C8. For every input \<open>x\<close> whose first-pass output has no tag-shaped text (nothing the
  tag pattern \<open><[^>]+>\<close> matches, anywhere) and none of the six named character
  references, a second pass gives the first-pass output again.
\<close>

theorem C8_htmlToText_idempotent:
  assumes "\<not> hasMatch tagRe (htmlToText x)"
    and "\<forall>e \<in> set namedEntities. \<not> str_includes (htmlToText x) e"
  shows "htmlToText (htmlToText x) = htmlToText x"
proof -
  let ?F = "\<lambda>(r, s) x. replaceAll r (\<lambda>m cs. s) x"
  let ?y = "htmlToText x"
  have m: "fold ?F markupRules ?y = ?y" using assms by (rule markup_fold_id)
  have sq: "squeezed ?y" and nb: "noBlankRun ?y"
    using first_pass_shape [of x] by blast+
  have "fold ?F htmlRules ?y
      = replaceAll newlinesRe (\<lambda>m cs. [CHR 0x0A, CHR 0x0A])
          (replaceAll blankRe (\<lambda>m cs. '' '') (fold ?F markupRules ?y))"
    unfolding htmlRules_split blankRe_def newlinesRe_def by simp
  also have "\<dots> = replaceAll newlinesRe (\<lambda>m cs. [CHR 0x0A, CHR 0x0A]) ?y"
    by (simp only: m blank_fixed [OF sq])
  also have "\<dots> = ?y" using nb by (rule newlines_fixed)
  finally have "htmlToText ?y = trim ?y" by (simp only: htmlToText_def)
  also have "\<dots> = ?y" unfolding htmlToText_def by (rule trim_trim)
  finally show ?thesis .
qed

text \<open>
  A paragraph with a tag, an entity, a run of spaces and a closing tag: the first pass
  gives \<open>Hi you & me\<close>, and the second pass leaves it.
\<close>

theorem C8_htmlToText_idempotent_witness:
  "htmlToText ''<p>Hi  <b>you</b> &amp; me</p>'' = ''Hi you & me''
   \<and> htmlToText ''Hi you & me'' = ''Hi you & me''"
proof -
  have e: "htmlToText ''<p>Hi  <b>you</b> &amp; me</p>'' = ''Hi you & me''"
    by code_simp
  have t: "\<not> hasMatch tagRe (htmlToText ''<p>Hi  <b>you</b> &amp; me</p>'')"
    unfolding e by code_simp
  have n: "\<forall>e \<in> set namedEntities.
             \<not> str_includes (htmlToText ''<p>Hi  <b>you</b> &amp; me</p>'') e"
    unfolding e by code_simp
  from C8_htmlToText_idempotent [OF t n] e show ?thesis by (simp only: simp_thms)
qed

text \<open>
  The condition is needed: the first pass of \<open>&amp;lt;b&amp;gt;\<close> is the tag-shaped
  text \<open><b>\<close>, which a second pass removes.
\<close>

lemma second_pass_removes_new_tag:
  "htmlToText ''&amp;lt;b&amp;gt;'' = ''<b>'' \<and> htmlToText ''<b>'' = []"
  by code_simp

end
